theory Spec2Isabelle
  imports Main "HOL-Library.Multiset"
begin

section \<open>Static-Partition Executor (utils/parallel.py)\<close>

text \<open>
  Python exceptions that reach the caller of the executors are values of \<open>py_error\<close>.
\<close>

datatype py_error = ZeroDivisionError

text \<open>
  \<^verbatim>\<open>split_data_for_workers(data_list, num_workers)\<close>: the list of \<open>num_workers\<close> empty
  lists, then the loop over \<open>enumerate(data_list)\<close> appending item \<open>i\<close> to the list at
  index \<open>i % num_workers\<close>. \<open>split_loop\<close> is the loop, with the running index \<open>i\<close>
  and the lists built so far. With \<open>num_workers = 0\<close> the first \<open>i % num_workers\<close>
  raises; an empty \<open>data_list\<close> never reaches it.
\<close>

fun split_loop :: "nat \<Rightarrow> nat \<Rightarrow> 'a list \<Rightarrow> 'a list list \<Rightarrow> 'a list list" where
  "split_loop n i [] dd = dd"
| "split_loop n i (c # cs) dd = split_loop n (Suc i) cs (dd[i mod n := dd ! (i mod n) @ [c]])"

definition split_data_for_workers :: "'a list \<Rightarrow> nat \<Rightarrow> py_error + 'a list list" where
  "split_data_for_workers data_list num_workers =
     (if num_workers = 0 \<and> data_list \<noteq> [] then Inl ZeroDivisionError
      else Inr (split_loop num_workers 0 data_list (replicate num_workers [])))"

text \<open>
  What the decorated function does on one worker's slice: it raises, it returns a list
  (or tuple), or it returns a single value of another type.
\<close>

datatype 'r func_result = Raises | RetList "'r list" | RetOne 'r

text \<open>
  \<^verbatim>\<open>process_worker\<close>: call \<open>func(data, process_id=pid)\<close> and put what it returns on the
  result queue; an exception is logged and nothing is put.
\<close>

definition process_worker ::
  "('a list \<Rightarrow> nat \<Rightarrow> 'r func_result) \<Rightarrow> 'a list \<Rightarrow> nat \<Rightarrow> 'r func_result list \<Rightarrow> 'r func_result list"
where
  "process_worker func data pid result_queue =
     (case func data pid of Raises \<Rightarrow> result_queue | r \<Rightarrow> result_queue @ [r])"

text \<open>
  The collection loop of the wrapper: a list or tuple taken off the queue extends
  \<open>all_results\<close>, anything else is appended.
\<close>

fun collect_result :: "'r func_result \<Rightarrow> 'r list \<Rightarrow> 'r list" where
  "collect_result (RetList rs) all_results = all_results @ rs"
| "collect_result (RetOne r) all_results = all_results @ [r]"
| "collect_result Raises all_results = all_results"

text \<open>
  \<^verbatim>\<open>pre_allocated_multiprocess(func)(all_data, num_workers)\<close>. The worker processes
  run side by side and each puts its result on the shared queue when it is done, so the
  queue holds the results in the order in which the workers finished. That order is the
  parameter \<open>finish_order\<close>, a list of worker indices. The wrapper joins every process
  and then drains the queue from its front.
\<close>

definition pre_allocated_multiprocess ::
  "('a list \<Rightarrow> nat \<Rightarrow> 'r func_result) \<Rightarrow> 'a list \<Rightarrow> nat \<Rightarrow> nat list \<Rightarrow> py_error + 'r list"
where
  "pre_allocated_multiprocess func all_data num_workers finish_order =
     (case split_data_for_workers all_data num_workers of
        Inl e \<Rightarrow> Inl e
      | Inr all_data_list \<Rightarrow>
          (let result_queue =
                 fold (\<lambda>pid q. process_worker func (all_data_list ! pid) pid q) finish_order []
           in Inr (fold collect_result result_queue [])))"

text \<open>The order in which the workers finish names every worker once.\<close>

definition finish_order_ok :: "nat \<Rightarrow> nat list \<Rightarrow> bool" where
  "finish_order_ok num_workers finish_order \<longleftrightarrow> mset finish_order = mset [0..<num_workers]"

text \<open>The items of worker \<open>w\<close> under round-robin assignment: those at the indices \<open>i\<close> with
  \<open>i mod num_workers = w\<close>, in their order.\<close>

definition round_robin :: "'a list \<Rightarrow> nat \<Rightarrow> nat \<Rightarrow> 'a list" where
  "round_robin data_list num_workers w =
     map (\<lambda>i. data_list ! i) (filter (\<lambda>i. i mod num_workers = w) [0..<length data_list])"

text \<open>The results one worker contributes to the returned list.\<close>

fun outputs :: "'r func_result \<Rightarrow> 'r list" where
  "outputs Raises = []"
| "outputs (RetList rs) = rs"
| "outputs (RetOne r) = [r]"

text \<open>The list the specification describes: the workers' sub-lists in worker-index order.\<close>

definition worker_index_order_results ::
  "('a list \<Rightarrow> nat \<Rightarrow> 'r func_result) \<Rightarrow> 'a list \<Rightarrow> nat \<Rightarrow> 'r list"
where
  "worker_index_order_results func all_data num_workers =
     concat (map (\<lambda>w. outputs (func (round_robin all_data num_workers w) w)) [0..<num_workers])"

section \<open>Queue-Fed Executor (utils/parallel.py)\<close>

text \<open>
  \<^verbatim>\<open>post_allocated_multithread\<close> and \<^verbatim>\<open>post_allocated_multiprocess\<close> share one shape: a
  filler puts every item and then one \<open>None\<close> per worker on the data queue, the workers
  take from the queue and put results on the result queue, and the caller takes
  \<open>len(all_data)\<close> results. The filler, the workers and the caller run side by side,
  so a run is a sequence of atomic events, each a step of one of them. An item of
  \<open>all_data\<close> is any Python value: \<open>Some a\<close> stands for a value other than \<open>None\<close>
  and \<open>None\<close> for \<open>None\<close>. The filler puts the items on the queue as they are, and
  the termination marker is \<open>None\<close>, so on the queue an item that is \<open>None\<close> is the
  same as a marker.
\<close>

datatype variant = Thread | Process

text \<open>What one call \<open>func(data, process_id=w)\<close> does: it raises an \<open>Exception\<close> (what
  the workers' handlers \<^verbatim>\<open>except Exception\<close> catch), or it returns a value, where
  \<open>None\<close> is Python's \<open>None\<close>. The workers call \<open>func\<close> only on data that is not
  \<open>None\<close>.\<close>

datatype 'r fn_result = FnRaises | FnReturns "'r option"

text \<open>A worker is at the top of its loop (about to take from the queue, or blocked in
  \<open>get\<close>), is inside \<open>func\<close> with an item, or has left its loop.\<close>

datatype 'a worker_state = Waiting | Working 'a | Stopped

text \<open>
  The events: the filler puts its next element; worker \<open>w\<close> takes the head of the data
  queue; worker \<open>w\<close> comes back from \<open>func\<close>; the caller takes the head of the result
  queue; worker \<open>w\<close> of the process variant gets \<open>Empty\<close> from
  \<open>queue.get(timeout=1)\<close>.
\<close>

datatype event = Put | Get nat | Done nat | Take | Timeout nat

text \<open>
  The state of a run: what the filler has still to put, the two queues, the workers, the
  iterations left in the caller's loop \<open>for _ in range(len(all_data))\<close>, the caller's
  \<open>all_results\<close>, and \<open>calls\<close>, the record of the calls of \<open>func\<close> that have come
  back (item and worker), which the code does not keep and the statements need.
\<close>

record ('a, 'r) exec_state =
  to_put :: "'a option list"
  data_queue :: "'a option list"
  result_queue :: "'r option list"
  workers :: "'a worker_state list"
  to_collect :: nat
  all_results :: "'r option list"
  calls :: "('a \<times> nat) list"

text \<open>\<^verbatim>\<open>queue_filler\<close>: the two loops, as the sequence of the values put.\<close>

definition queue_filler :: "'a option list \<Rightarrow> nat \<Rightarrow> 'a option list" where
  "queue_filler data_list n_workers =
     ((\<lambda>q. q @ [None]) ^^ n_workers) (fold (\<lambda>item q. q @ [item]) data_list [])"

definition initial_state :: "'a option list \<Rightarrow> nat \<Rightarrow> ('a, 'r) exec_state" where
  "initial_state all_data num_workers =
     \<lparr>to_put = queue_filler all_data num_workers, data_queue = [], result_queue = [],
      workers = replicate num_workers Waiting, to_collect = length all_data,
      all_results = [], calls = []\<rparr>"

definition put_step :: "('a, 'r) exec_state \<Rightarrow> ('a, 'r) exec_state option" where
  "put_step s =
     (case to_put s of
        [] \<Rightarrow> None
      | x # xs \<Rightarrow> Some (s\<lparr>to_put := xs, data_queue := data_queue s @ [x]\<rparr>))"

text \<open>
  The top of \<^verbatim>\<open>worker\<close>: \<open>data = queue.get()\<close>; when \<open>data is None\<close> (a
  marker, or an item that is \<open>None\<close>) the worker leaves its loop, otherwise it
  enters \<open>func\<close>. On an empty queue the worker is blocked.
\<close>

definition get_step :: "nat \<Rightarrow> ('a, 'r) exec_state \<Rightarrow> ('a, 'r) exec_state option" where
  "get_step w s =
     (if w < length (workers s) \<and> workers s ! w = Waiting then
        (case data_queue s of
           [] \<Rightarrow> None
         | None # q \<Rightarrow> Some (s\<lparr>data_queue := q, workers := (workers s)[w := Stopped]\<rparr>)
         | Some a # q \<Rightarrow> Some (s\<lparr>data_queue := q, workers := (workers s)[w := Working a]\<rparr>))
      else None)"

text \<open>
  The rest of the loop body. When \<open>func\<close> returns, the result is put on the result
  queue and the worker goes back to the top of its loop. When \<open>func\<close> raises, the
  thread worker logs, puts \<open>None\<close> and goes on; the process worker logs and executes
  \<^verbatim>\<open>break\<close>, putting nothing.
\<close>

definition done_step ::
  "variant \<Rightarrow> ('a \<Rightarrow> nat \<Rightarrow> 'r fn_result) \<Rightarrow> nat \<Rightarrow> ('a, 'r) exec_state \<Rightarrow> ('a, 'r) exec_state option"
where
  "done_step v func w s =
     (if w < length (workers s) then
        (case workers s ! w of
           Working a \<Rightarrow>
             (case func a w of
                FnReturns r \<Rightarrow>
                  Some (s\<lparr>result_queue := result_queue s @ [r],
                          workers := (workers s)[w := Waiting],
                          calls := calls s @ [(a, w)]\<rparr>)
              | FnRaises \<Rightarrow>
                  (case v of
                     Thread \<Rightarrow>
                       Some (s\<lparr>result_queue := result_queue s @ [None],
                               workers := (workers s)[w := Waiting],
                               calls := calls s @ [(a, w)]\<rparr>)
                   | Process \<Rightarrow>
                       Some (s\<lparr>workers := (workers s)[w := Stopped],
                               calls := calls s @ [(a, w)]\<rparr>)))
         | _ \<Rightarrow> None)
      else None)"

text \<open>
  One iteration of the caller's loop: \<open>result = result_queue.get()\<close>, blocked while
  the queue is empty. The thread variant appends the result only when it is not
  \<open>None\<close>; the process variant appends every result.
\<close>

definition collect_step :: "variant \<Rightarrow> ('a, 'r) exec_state \<Rightarrow> ('a, 'r) exec_state option" where
  "collect_step v s =
     (if to_collect s = 0 then None
      else (case result_queue s of
              [] \<Rightarrow> None
            | r # q \<Rightarrow>
                Some (s\<lparr>result_queue := q, to_collect := to_collect s - 1,
                        all_results :=
                          (case v of
                             Thread \<Rightarrow> if r \<noteq> None then all_results s @ [r] else all_results s
                           | Process \<Rightarrow> all_results s @ [r])\<rparr>)))"

text \<open>
  \<^verbatim>\<open>queue.get(timeout=1)\<close> of the process worker raises \<open>Empty\<close> when the queue stays
  empty; the handler \<^verbatim>\<open>except Exception\<close> logs and breaks. The model has no clock: the
  event can happen whenever the queue is empty.
\<close>

definition timeout_step :: "variant \<Rightarrow> nat \<Rightarrow> ('a, 'r) exec_state \<Rightarrow> ('a, 'r) exec_state option" where
  "timeout_step v w s =
     (if v = Process \<and> w < length (workers s) \<and> workers s ! w = Waiting \<and> data_queue s = []
      then Some (s\<lparr>workers := (workers s)[w := Stopped]\<rparr>) else None)"

fun exec_step ::
  "variant \<Rightarrow> ('a \<Rightarrow> nat \<Rightarrow> 'r fn_result) \<Rightarrow> event \<Rightarrow> ('a, 'r) exec_state \<Rightarrow> ('a, 'r) exec_state option"
where
  "exec_step v func Put s = put_step s"
| "exec_step v func (Get w) s = get_step w s"
| "exec_step v func (Done w) s = done_step v func w s"
| "exec_step v func Take s = collect_step v s"
| "exec_step v func (Timeout w) s = timeout_step v w s"

text \<open>A run along a sequence of events; \<open>None\<close> when an event of the sequence cannot happen
  in the state it meets.\<close>

fun run ::
  "variant \<Rightarrow> ('a \<Rightarrow> nat \<Rightarrow> 'r fn_result) \<Rightarrow> event list \<Rightarrow> ('a, 'r) exec_state \<Rightarrow> ('a, 'r) exec_state option"
where
  "run v func [] s = Some s"
| "run v func (e # es) s =
     (case exec_step v func e s of None \<Rightarrow> None | Some s' \<Rightarrow> run v func es s')"

text \<open>
  When the wrapper returns. The thread wrapper returns after its collection loop: its
  joins have a timeout. The process wrapper then joins the filler and every worker
  without a timeout.
\<close>

definition returned :: "variant \<Rightarrow> ('a, 'r) exec_state \<Rightarrow> bool" where
  "returned v s \<longleftrightarrow>
     to_collect s = 0 \<and>
     (v = Process \<longrightarrow> to_put s = [] \<and> list_all (\<lambda>w. w = Stopped) (workers s))"

text \<open>
  The two wrappers along a sequence of events \<open>sched\<close>: the returned list, or \<open>None\<close>
  when the sequence is not a run that ends with the wrapper returning. The thread
  wrapper returns \<open>[]\<close> at once for an empty \<open>all_data\<close>.
\<close>

definition post_allocated_multithread ::
  "('a \<Rightarrow> nat \<Rightarrow> 'r fn_result) \<Rightarrow> 'a option list \<Rightarrow> nat \<Rightarrow> event list \<Rightarrow> 'r option list option"
where
  "post_allocated_multithread func all_data num_workers sched =
     (if all_data = [] then Some []
      else (case run Thread func sched (initial_state all_data num_workers) of
              None \<Rightarrow> None
            | Some s \<Rightarrow> if returned Thread s then Some (all_results s) else None))"

definition post_allocated_multiprocess ::
  "('a \<Rightarrow> nat \<Rightarrow> 'r fn_result) \<Rightarrow> 'a option list \<Rightarrow> nat \<Rightarrow> event list \<Rightarrow> 'r option list option"
where
  "post_allocated_multiprocess func all_data num_workers sched =
     (case run Process func sched (initial_state all_data num_workers) of
        None \<Rightarrow> None
      | Some s \<Rightarrow> if returned Process s then Some (all_results s) else None)"

text \<open>What a call contributes to the returned list of each variant.\<close>

fun kept_result :: "variant \<Rightarrow> ('a \<Rightarrow> nat \<Rightarrow> 'r fn_result) \<Rightarrow> 'a \<times> nat \<Rightarrow> 'r option list" where
  "kept_result v func (a, w) =
     (case func a w of
        FnRaises \<Rightarrow> []
      | FnReturns r \<Rightarrow> (case v of Thread \<Rightarrow> if r \<noteq> None then [r] else [] | Process \<Rightarrow> [r]))"


subsection \<open>Quantities of a state\<close>

text \<open>The items among the elements of a queue, and the number of its markers.\<close>

definition items_of :: "'a option list \<Rightarrow> 'a list" where
  "items_of q = concat (map (\<lambda>x. case x of None \<Rightarrow> [] | Some a \<Rightarrow> [a]) q)"

definition n_markers :: "'a option list \<Rightarrow> nat" where
  "n_markers q = length (filter (\<lambda>x. x = None) q)"

text \<open>The items the workers are inside \<open>func\<close> with, and the number of workers that have
  not left their loop.\<close>

definition working_items :: "'a worker_state list \<Rightarrow> 'a list" where
  "working_items ws = concat (map (\<lambda>w. case w of Working a \<Rightarrow> [a] | _ \<Rightarrow> []) ws)"

definition n_running :: "'a worker_state list \<Rightarrow> nat" where
  "n_running ws = length (concat (map (\<lambda>w. if w = Stopped then [] else [()]) ws))"

text \<open>What a call that has come back put on the result queue, and whether the caller keeps
  a value it takes from the result queue.\<close>

fun pushed :: "variant \<Rightarrow> ('a \<Rightarrow> nat \<Rightarrow> 'r fn_result) \<Rightarrow> 'a \<times> nat \<Rightarrow> 'r option list" where
  "pushed v func (a, w) =
     (case func a w of
        FnReturns r \<Rightarrow> [r]
      | FnRaises \<Rightarrow> (case v of Thread \<Rightarrow> [None] | Process \<Rightarrow> []))"

fun keeps :: "variant \<Rightarrow> 'r option \<Rightarrow> bool" where
  "keeps Thread r = (r \<noteq> None)"
| "keeps Process r = True"



text \<open>
  The accounting invariant of a run from \<open>initial_state all_data num_workers\<close>: every
  item other than \<open>None\<close> is in the queue, with a worker, or in the record of calls; the results taken and
  those waiting are what the calls put; and the caller's counter matches.
\<close>

definition accounting ::
  "variant \<Rightarrow> ('a \<Rightarrow> nat \<Rightarrow> 'r fn_result) \<Rightarrow> 'a option list \<Rightarrow> ('a, 'r) exec_state \<Rightarrow> bool"
where
  "accounting v func all_data s \<longleftrightarrow>
     mset (map fst (calls s)) + mset (working_items (workers s)) +
       mset (items_of (data_queue s @ to_put s)) = mset (items_of all_data) \<and>
     mset (all_results s) + mset (filter (keeps v) (result_queue s)) =
       mset (filter (keeps v) (concat (map (pushed v func) (calls s)))) \<and>
     length (result_queue s) + length all_data =
       length (concat (map (pushed v func) (calls s))) + to_collect s"


text \<open>The runs in which no call raises inside a process worker.\<close>

definition no_process_raise ::
  "variant \<Rightarrow> ('a \<Rightarrow> nat \<Rightarrow> 'r fn_result) \<Rightarrow> 'a option list \<Rightarrow> bool"
where
  "no_process_raise v func all_data \<longleftrightarrow>
     v = Thread \<or> (\<forall>a w. Some a \<in> set all_data \<longrightarrow> func a w \<noteq> FnRaises)"

text \<open>Either wrapper, by variant.\<close>

definition post_allocated ::
  "variant \<Rightarrow> ('a \<Rightarrow> nat \<Rightarrow> 'r fn_result) \<Rightarrow> 'a option list \<Rightarrow> nat \<Rightarrow> event list \<Rightarrow> 'r option list option"
where
  "post_allocated v =
     (case v of Thread \<Rightarrow> post_allocated_multithread | Process \<Rightarrow> post_allocated_multiprocess)"

text \<open>
  A returned list \<open>rs\<close> holds what the variant keeps of one call per item: there is a
  record of calls whose items are, up to order, exactly the items of \<open>all_data\<close>, and
  \<open>rs\<close> is, up to order, what those calls contribute.
\<close>

definition kept_from_calls ::
  "variant \<Rightarrow> ('a \<Rightarrow> nat \<Rightarrow> 'r fn_result) \<Rightarrow> 'a option list \<Rightarrow> 'r option list \<Rightarrow> bool"
where
  "kept_from_calls v func all_data rs \<longleftrightarrow>
     (\<exists>cs. mset (map (\<lambda>c. Some (fst c)) cs) = mset all_data \<and>
           mset rs = mset (concat (map (kept_result v func) cs)))"


text \<open>What the caller of the thread variant can tell of a call: the value, with \<open>None\<close>
  for a call that raised.\<close>

fun result_or_none :: "'r fn_result \<Rightarrow> 'r option" where
  "result_or_none FnRaises = None"
| "result_or_none (FnReturns r) = r"

text \<open>Example transforms on numbers: one raises on the item \<open>1\<close>, one returns \<open>None\<close> on it,
  one returns ten times every item.\<close>

definition raises_on_one :: "nat \<Rightarrow> nat \<Rightarrow> nat fn_result" where
  "raises_on_one a w = (if a = 1 then FnRaises else FnReturns (Some (10 * a)))"

definition none_on_one :: "nat \<Rightarrow> nat \<Rightarrow> nat fn_result" where
  "none_on_one a w = (if a = 1 then FnReturns None else FnReturns (Some (10 * a)))"


section \<open>Dynamic Dependent-Task Scheduler (utils/parallel.py) and the reduction (utils/data.py)\<close>

text \<open>
  A task is a dictionary with \<open>task_id\<close>, \<open>item_id\<close>, \<open>turn\<close> and the caller's
  payload; the record of a result is what the worker puts on the result queue.
\<close>

record 'p task =
  task_id :: string
  item_id :: string
  turn :: int
  payload :: 'p

record 'v task_result =
  r_task_id :: string
  r_item_id :: string
  r_turn :: int
  r_result :: "'v option"

text \<open>
  What \<open>func(task, process_id=w)\<close> does: it raises, or it returns a dictionary. Of the
  dictionary the worker reads the key \<open>result\<close> (\<open>None\<close> here when the key is absent or
  the dictionary is empty or \<open>None\<close>; \<open>Some r\<close> when it is present, \<open>r\<close> being the value,
  possibly Python's \<open>None\<close>) and the list under \<open>next_tasks\<close> (empty when absent).
\<close>

datatype ('v, 'p) turn_result = TurnRaises | TurnReturns "'v option option" "'p task list"

text \<open>
  The events of a run: worker \<open>w\<close> takes a task from the queue; worker \<open>w\<close> comes back
  from \<open>func\<close>; worker \<open>w\<close> leaves its loop after it has found the queue empty in
  \<open>get(timeout=3)\<close> and in the three checks of \<open>qsize()\<close> that follow. The model has no
  clock: a waiting worker can leave whenever the queue is empty. The counters
  \<open>total_completed\<close> and \<open>active_workers\<close> only feed the progress bar and the log and are
  left out.
\<close>

datatype dyn_event = DGet nat | DDone nat | DExit nat

record ('v, 'p) pool_state =
  task_queue :: "'p task list"
  results_queue :: "'v task_result list"
  pool_workers :: "'p task worker_state list"

definition dyn_get :: "nat \<Rightarrow> ('v, 'p) pool_state \<Rightarrow> ('v, 'p) pool_state option" where
  "dyn_get w s =
     (if w < length (pool_workers s) \<and> pool_workers s ! w = Waiting then
        (case task_queue s of
           [] \<Rightarrow> None
         | t # q \<Rightarrow> Some (s\<lparr>task_queue := q, pool_workers := (pool_workers s)[w := Working t]\<rparr>))
      else None)"

text \<open>
  Back from \<open>func\<close>: when the dictionary has the key \<open>result\<close>, the record with the
  task's \<open>task_id\<close>, \<open>item_id\<close> and \<open>turn\<close> and that result is put on the result queue;
  then every next task is put on the task queue. When \<open>func\<close> raises, the error is
  logged. Either way the worker goes on with its loop.
\<close>

definition dyn_done ::
  "('p task \<Rightarrow> nat \<Rightarrow> ('v, 'p) turn_result) \<Rightarrow> nat \<Rightarrow> ('v, 'p) pool_state \<Rightarrow> ('v, 'p) pool_state option"
where
  "dyn_done func w s =
     (if w < length (pool_workers s) then
        (case pool_workers s ! w of
           Working t \<Rightarrow>
             (case func t w of
                TurnRaises \<Rightarrow> Some (s\<lparr>pool_workers := (pool_workers s)[w := Waiting]\<rparr>)
              | TurnReturns res next_tasks \<Rightarrow>
                  Some (s\<lparr>task_queue := task_queue s @ next_tasks,
                          results_queue := results_queue s @
                            (case res of
                               None \<Rightarrow> []
                             | Some r \<Rightarrow>
                                 [\<lparr>r_task_id = task_id t, r_item_id = item_id t, r_turn = turn t,
                                   r_result = r\<rparr>]),
                          pool_workers := (pool_workers s)[w := Waiting]\<rparr>))
         | _ \<Rightarrow> None)
      else None)"

definition dyn_exit :: "nat \<Rightarrow> ('v, 'p) pool_state \<Rightarrow> ('v, 'p) pool_state option" where
  "dyn_exit w s =
     (if w < length (pool_workers s) \<and> pool_workers s ! w = Waiting \<and> task_queue s = []
      then Some (s\<lparr>pool_workers := (pool_workers s)[w := Stopped]\<rparr>) else None)"

fun dyn_step ::
  "('p task \<Rightarrow> nat \<Rightarrow> ('v, 'p) turn_result) \<Rightarrow> dyn_event \<Rightarrow> ('v, 'p) pool_state \<Rightarrow>
   ('v, 'p) pool_state option"
where
  "dyn_step func (DGet w) s = dyn_get w s"
| "dyn_step func (DDone w) s = dyn_done func w s"
| "dyn_step func (DExit w) s = dyn_exit w s"

fun dyn_run ::
  "('p task \<Rightarrow> nat \<Rightarrow> ('v, 'p) turn_result) \<Rightarrow> dyn_event list \<Rightarrow> ('v, 'p) pool_state \<Rightarrow>
   ('v, 'p) pool_state option"
where
  "dyn_run func [] s = Some s"
| "dyn_run func (e # es) s =
     (case dyn_step func e s of None \<Rightarrow> None | Some s' \<Rightarrow> dyn_run func es s')"

text \<open>
  \<^verbatim>\<open>dynamic_task_pool_multiprocess(func)(initial_tasks, num_workers)\<close> along a sequence
  of events: \<open>[]\<close> at once for no initial tasks; otherwise the wrapper joins every
  worker and then drains the result queue from its front. \<open>None\<close> when the sequence is
  not a run that ends with every worker joined.
\<close>

definition dynamic_task_pool_multiprocess ::
  "('p task \<Rightarrow> nat \<Rightarrow> ('v, 'p) turn_result) \<Rightarrow> 'p task list \<Rightarrow> nat \<Rightarrow> dyn_event list \<Rightarrow>
   'v task_result list option"
where
  "dynamic_task_pool_multiprocess func initial_tasks num_workers sched =
     (if initial_tasks = [] then Some []
      else (case dyn_run func sched
                   \<lparr>task_queue = initial_tasks, results_queue = [],
                    pool_workers = replicate num_workers Waiting\<rparr> of
              None \<Rightarrow> None
            | Some s \<Rightarrow>
                if list_all (\<lambda>w. w = Stopped) (pool_workers s) then Some (results_queue s)
                else None))"

subsection \<open>The caller's reduction\<close>

text \<open>
  The loop of \<^verbatim>\<open>process_turn_hook\<close> over the results: a result replaces the one kept
  for its \<open>item_id\<close> when there is none or when its \<open>turn\<close> is greater.
\<close>

definition keep_highest_turn ::
  "'v task_result \<Rightarrow> (string \<rightharpoonup> 'v task_result) \<Rightarrow> (string \<rightharpoonup> 'v task_result)"
where
  "keep_highest_turn result item_results =
     (case item_results (r_item_id result) of
        None \<Rightarrow> item_results(r_item_id result \<mapsto> result)
      | Some kept \<Rightarrow>
          if r_turn result > r_turn kept then item_results(r_item_id result \<mapsto> result)
          else item_results)"

definition reduce_results :: "'v task_result list \<Rightarrow> (string \<rightharpoonup> 'v task_result)" where
  "reduce_results results = fold keep_highest_turn results Map.empty"

subsection \<open>The two-turn scenario\<close>

text \<open>The initial task of item \<open>x\<close> at turn 0, its follow-up at turn 1, and the transform:
  \<open>partial\<close> and the follow-up at turn 0, \<open>final\<close> and no next task after that.\<close>

definition first_turn_task :: "unit task" where
  "first_turn_task = \<lparr>task_id = ''x_0'', item_id = ''x'', turn = 0, payload = ()\<rparr>"

definition second_turn_task :: "unit task" where
  "second_turn_task = \<lparr>task_id = ''x_1'', item_id = ''x'', turn = 1, payload = ()\<rparr>"

definition two_turn_func :: "unit task \<Rightarrow> nat \<Rightarrow> (string, unit) turn_result" where
  "two_turn_func t w =
     (if turn t = 0 then TurnReturns (Some (Some ''partial'')) [second_turn_task]
      else TurnReturns (Some (Some ''final'')) [])"

definition partial_result :: "string task_result" where
  "partial_result = \<lparr>r_task_id = ''x_0'', r_item_id = ''x'', r_turn = 0, r_result = Some ''partial''\<rparr>"

definition final_result :: "string task_result" where
  "final_result = \<lparr>r_task_id = ''x_1'', r_item_id = ''x'', r_turn = 1, r_result = Some ''final''\<rparr>"

text \<open>
  The stages of a run of the scenario: the first task waits, is worked on, has put its
  result and the second task; the second task is worked on; both results are there.
\<close>

definition scenario_stage :: "(string, unit) pool_state \<Rightarrow> bool" where
  "scenario_stage s \<longleftrightarrow>
     (task_queue s = [first_turn_task] \<and> results_queue s = [] \<and>
        working_items (pool_workers s) = [] \<and> Stopped \<notin> set (pool_workers s) \<and>
        pool_workers s \<noteq> []) \<or>
     (task_queue s = [] \<and> results_queue s = [] \<and>
        working_items (pool_workers s) = [first_turn_task]) \<or>
     (task_queue s = [second_turn_task] \<and> results_queue s = [partial_result] \<and>
        working_items (pool_workers s) = [] \<and> Waiting \<in> set (pool_workers s)) \<or>
     (task_queue s = [] \<and> results_queue s = [partial_result] \<and>
        working_items (pool_workers s) = [second_turn_task]) \<or>
     (task_queue s = [] \<and> results_queue s = [partial_result, final_result] \<and>
        working_items (pool_workers s) = [])"

text \<open>
  Highest turn wins: for every \<open>item_id\<close> the map keeps nothing when the results have none
  for it, and otherwise one of the results for it, of a turn no other result for it
  exceeds.
\<close>

definition highest_turn_kept :: "'v task_result list \<Rightarrow> (string \<rightharpoonup> 'v task_result) \<Rightarrow> bool" where
  "highest_turn_kept results item_results \<longleftrightarrow>
     (\<forall>i. case item_results i of
            None \<Rightarrow> (\<forall>r\<in>set results. r_item_id r \<noteq> i)
          | Some kept \<Rightarrow>
              kept \<in> set results \<and> r_item_id kept = i \<and>
              (\<forall>r\<in>set results. r_item_id r = i \<longrightarrow> r_turn r \<le> r_turn kept))"

section \<open>Content Hasher (scripts/zip_dataset.py, scripts/data_aggregation/merge_dataset.py)\<close>

text \<open>
  \<^verbatim>\<open>get_file_hash_fast\<close> is the same text in both scripts. File contents and digests
  are byte strings (\<open>string\<close>, a list of 8-bit characters). What the function finds at
  a path: nothing (\<open>stat\<close> raises), a file of a given size that cannot be opened, or a
  file with its content.
\<close>

datatype fs_entry = Missing | Unreadable nat | Readable string

fun stat_size :: "fs_entry \<Rightarrow> nat option" where
  "stat_size Missing = None"
| "stat_size (Unreadable n) = Some n"
| "stat_size (Readable d) = Some (length d)"

fun open_rb :: "fs_entry \<Rightarrow> string option" where
  "open_rb (Readable d) = Some d"
| "open_rb _ = None"

text \<open>\<^verbatim>\<open>str(n)\<close> for a non-negative integer: its decimal digits.\<close>

definition digit_char :: "nat \<Rightarrow> char" where
  "digit_char d = ''0123456789'' ! d"

fun str_nat :: "nat \<Rightarrow> string" where
  "str_nat n = (if n < 10 then [digit_char n] else str_nat (n div 10) @ [digit_char (n mod 10)])"

declare str_nat.simps [simp del]

text \<open>
  \<^verbatim>\<open>iter(lambda: f.read(8192), b"")\<close>: the content in chunks of at most \<open>n\<close> bytes, up
  to the first empty read.
\<close>

fun read_chunks :: "nat \<Rightarrow> string \<Rightarrow> string list" where
  "read_chunks n d =
     (if n = 0 \<or> d = [] then [] else take n d # read_chunks n (drop n d))"

declare read_chunks.simps [simp del]

text \<open>
  The bytes fed to the digest for a large file, in the order of the \<open>update\<close> calls:
  \<open>f.read(1024 * 1024)\<close> from the start; if \<open>file_size > 2 * 1024 * 1024\<close>, the
  \<open>f.read(1024 * 1024)\<close> after \<open>f.seek(file_size // 2)\<close>; if
  \<open>file_size > 1024 * 1024\<close>, the \<open>f.read()\<close> to the end after
  \<open>f.seek(max(0, file_size - 1024 * 1024))\<close>; and \<open>str(file_size).encode()\<close>.
\<close>

definition fast_hash_input :: "string \<Rightarrow> nat \<Rightarrow> string" where
  "fast_hash_input d file_size =
     (let head_data = take (1024 * 1024) d;
          middle_data =
            (if file_size > 2 * 1024 * 1024
             then take (1024 * 1024) (drop (file_size div 2) d) else []);
          tail_data =
            (if file_size > 1024 * 1024
             then drop (nat (max 0 (int file_size - 1024 * 1024))) d else [])
      in head_data @ middle_data @ tail_data @ str_nat file_size)"

text \<open>
  \<^verbatim>\<open>get_file_hash_fast(file_path)\<close>. \<open>md5_hexdigest\<close> stands for \<open>hashlib.md5\<close>: the
  hexadecimal digest of all the bytes passed to \<open>update\<close>. Any exception (a missing
  file, a file that cannot be opened) is logged and the result is \<open>None\<close>.
\<close>

definition get_file_hash_fast :: "(string \<Rightarrow> string) \<Rightarrow> fs_entry \<Rightarrow> string option" where
  "get_file_hash_fast md5_hexdigest file =
     (case stat_size file of
        None \<Rightarrow> None
      | Some file_size \<Rightarrow>
          if file_size = 0 then Some ''empty_file''
          else if file_size < 10 * 1024 * 1024 then
            (case open_rb file of
               None \<Rightarrow> None
             | Some d \<Rightarrow> Some (md5_hexdigest (concat (read_chunks 8192 d))))
          else
            (case open_rb file of
               None \<Rightarrow> None
             | Some d \<Rightarrow> Some (''fast_'' @ md5_hexdigest (fast_hash_input d file_size))))"

definition get_file_hash :: "(string \<Rightarrow> string) \<Rightarrow> fs_entry \<Rightarrow> string option" where
  "get_file_hash md5_hexdigest file = get_file_hash_fast md5_hexdigest file"

text \<open>
  The digest input as the specification describes it: the first MiB, the MiB centred at
  the midpoint of the file, the last MiB, and the decimal size.
\<close>

definition centred_hash_input :: "string \<Rightarrow> string" where
  "centred_hash_input d =
     take (1024 * 1024) d @
     (if length d > 2 * 1024 * 1024
      then take (1024 * 1024) (drop (length d div 2 - 512 * 1024) d) else []) @
     (if length d > 1024 * 1024 then drop (length d - 1024 * 1024) d else []) @
     str_nat (length d)"

text \<open>A file of ten MiB for the examples: five MiB of \<open>a\<close>, then five MiB of \<open>b\<close>.\<close>

definition ten_mib_file :: string where
  "ten_mib_file = replicate 5242880 CHR ''a'' @ replicate 5242880 CHR ''b''"

section \<open>Deduplicator (scripts/zip_dataset.py)\<close>

text \<open>
  A media file as \<^verbatim>\<open>collect_media_files_from_item\<close> records it. The fields \<open>item_id\<close>
  and \<open>item_idx\<close> are never read by the deduplication and are left out; \<open>size_b\<close> is
  the field \<open>size\<close>.
\<close>

record media_file =
  src_path :: string
  media_type :: string
  suffix :: string
  size_b :: nat
  dataset_name :: string

text \<open>An entry of \<open>unique_files\<close>.\<close>

record unique_info =
  u_media_type :: string
  u_src_path :: string
  u_idx :: nat
  u_suffix :: string
  u_size :: nat
  u_original_dataset :: string

text \<open>
  The three dictionaries the deduplication updates: \<open>unique_files\<close> by key,
  \<open>path_mapping\<close> from source path to relative destination path, and
  \<open>media_counters\<close>, a \<open>defaultdict\<close> of counters by dataset and media type.
\<close>

record dedup_state =
  unique_files :: "string \<rightharpoonup> unique_info"
  path_mapping :: "string \<rightharpoonup> string"
  media_counters :: "string \<times> string \<Rightarrow> nat"

definition empty_dedup_state :: dedup_state where
  "empty_dedup_state =
     \<lparr>unique_files = Map.empty, path_mapping = Map.empty, media_counters = (\<lambda>k. 0)\<rparr>"

text \<open>\<^verbatim>\<open>f"MediaFiles/{media_type}/{idx}{suffix}"\<close>.\<close>

definition rel_path :: "string \<Rightarrow> nat \<Rightarrow> string \<Rightarrow> string" where
  "rel_path mt idx sfx = ''MediaFiles/'' @ mt @ ''/'' @ str_nat idx @ sfx"

text \<open>
  The lines both branches share for a new unique file: increment the counter of the
  file's dataset and media type, take the new value as \<open>idx\<close>, store the entry under
  \<open>key\<close> and map the source path to the destination.
\<close>

definition register_unique :: "string \<Rightarrow> media_file \<Rightarrow> dedup_state \<Rightarrow> dedup_state" where
  "register_unique key m st =
     (let counters = (media_counters st)
            ((dataset_name m, media_type m) := media_counters st (dataset_name m, media_type m) + 1);
          idx = counters (dataset_name m, media_type m);
          info = \<lparr>u_media_type = media_type m, u_src_path = src_path m, u_idx = idx,
                  u_suffix = suffix m, u_size = size_b m, u_original_dataset = dataset_name m\<rparr>
      in \<lparr>unique_files = (unique_files st)(key \<mapsto> info),
          path_mapping = (path_mapping st)(src_path m \<mapsto> rel_path (media_type m) idx (suffix m)),
          media_counters = counters\<rparr>)"

subsection \<open>First phase: groups by file size\<close>

text \<open>\<^verbatim>\<open>size_groups[file_size].append(media_file)\<close> on a dictionary that keeps the order
  in which its keys were inserted.\<close>

fun add_to_group ::
  "nat \<Rightarrow> media_file \<Rightarrow> (nat \<times> media_file list) list \<Rightarrow> (nat \<times> media_file list) list"
where
  "add_to_group k m [] = [(k, [m])]"
| "add_to_group k m ((k', ms) # g) =
     (if k = k' then (k', ms @ [m]) # g else (k', ms) # add_to_group k m g)"

text \<open>
  The loop of the first phase: a source path seen before is skipped; a file whose
  \<open>stat\<close> fails is logged and skipped; any other file joins the group of its size.
\<close>

fun group_by_size ::
  "(string \<Rightarrow> fs_entry) \<Rightarrow> media_file list \<Rightarrow> string set \<Rightarrow> (nat \<times> media_file list) list \<Rightarrow>
   (nat \<times> media_file list) list"
where
  "group_by_size fs [] processed_paths size_groups = size_groups"
| "group_by_size fs (m # ms) processed_paths size_groups =
     (if src_path m \<in> processed_paths then group_by_size fs ms processed_paths size_groups
      else (case stat_size (fs (src_path m)) of
              None \<Rightarrow> group_by_size fs ms (insert (src_path m) processed_paths) size_groups
            | Some file_size \<Rightarrow>
                group_by_size fs ms (insert (src_path m) processed_paths)
                  (add_to_group file_size m size_groups)))"

subsection \<open>Second phase: hashing inside a group\<close>

text \<open>
  What \<^verbatim>\<open>compute_hash_for_file_zip_thread\<close> returns for a file: the dictionary with
  status \<open>success\<close>, the hash (possibly \<open>None\<close>) and the file; or the dictionary with
  status \<open>error\<close>. \<open>get_file_hash\<close> catches every exception itself, so the function
  always returns the first.
\<close>

datatype hash_result = HashSuccess "string option" media_file | HashError

definition compute_hash_for_file_zip ::
  "(string \<Rightarrow> string) \<Rightarrow> (string \<Rightarrow> fs_entry) \<Rightarrow> media_file \<Rightarrow> hash_result"
where
  "compute_hash_for_file_zip md5_hexdigest fs file_info =
     HashSuccess (get_file_hash md5_hexdigest (fs (src_path file_info))) file_info"

text \<open>
  The body of the loop over \<open>hash_results\<close>, on the state and \<open>group_hash_map\<close>: a result
  that is not a success or has no hash (\<open>None\<close> or the empty string) is skipped by
  \<^verbatim>\<open>continue\<close>; the first file of a hash becomes a unique file under that hash; a later
  file of the same hash is mapped to the destination of the first.
\<close>

fun hash_result_step ::
  "hash_result \<Rightarrow> dedup_state \<times> (string \<rightharpoonup> unique_info) \<Rightarrow> dedup_state \<times> (string \<rightharpoonup> unique_info)"
where
  "hash_result_step HashError (st, group_hash_map) = (st, group_hash_map)"
| "hash_result_step (HashSuccess None m) (st, group_hash_map) = (st, group_hash_map)"
| "hash_result_step (HashSuccess (Some file_hash) m) (st, group_hash_map) =
     (if file_hash = [] then (st, group_hash_map)
      else (case group_hash_map file_hash of
              None \<Rightarrow>
                (let st' = register_unique file_hash m st
                 in (st', group_hash_map(file_hash := unique_files st' file_hash)))
            | Some existing_info \<Rightarrow>
                (st\<lparr>path_mapping := (path_mapping st)
                      (src_path m \<mapsto>
                         rel_path (u_media_type existing_info) (u_idx existing_info)
                           (u_suffix existing_info))\<rparr>,
                 group_hash_map)))"

text \<open>\<^verbatim>\<open>Path(src_path).exists()\<close>.\<close>

fun path_exists :: "fs_entry \<Rightarrow> bool" where
  "path_exists Missing = False"
| "path_exists _ = True"

text \<open>
  \<^verbatim>\<open>process_hash_group_concurrent_zip\<close>. The executor returns the results in the order
  in which the workers complete them; \<open>completion\<close> gives that order for a list of
  tasks. The decorated function never returns \<open>None\<close> and never raises, so neither
  executor loses a result.
\<close>

definition process_hash_group_concurrent_zip ::
  "(string \<Rightarrow> string) \<Rightarrow> (string \<Rightarrow> fs_entry) \<Rightarrow> (media_file list \<Rightarrow> media_file list) \<Rightarrow>
   media_file list \<Rightarrow> dedup_state \<Rightarrow> dedup_state"
where
  "process_hash_group_concurrent_zip md5_hexdigest fs completion media_files_group st =
     (let hash_tasks = filter (\<lambda>m. path_exists (fs (src_path m))) media_files_group
      in if hash_tasks = [] then st
         else (let hash_results =
                     map (compute_hash_for_file_zip md5_hexdigest fs) (completion hash_tasks)
               in fst (fold hash_result_step hash_results (st, Map.empty))))"

text \<open>The completion order is some order of the tasks.\<close>

definition completion_ok :: "(media_file list \<Rightarrow> media_file list) \<Rightarrow> bool" where
  "completion_ok completion \<longleftrightarrow> (\<forall>tasks. mset (completion tasks) = mset tasks)"

text \<open>
  The body of the loop over \<open>size_groups.items()\<close>: a group of one file is unique without
  hashing, under the key \<^verbatim>\<open>f"size_{file_size}_{src_path}"\<close>; a larger group is hashed.
\<close>

definition size_group_step ::
  "(string \<Rightarrow> string) \<Rightarrow> (string \<Rightarrow> fs_entry) \<Rightarrow> (media_file list \<Rightarrow> media_file list) \<Rightarrow>
   nat \<times> media_file list \<Rightarrow> dedup_state \<Rightarrow> dedup_state"
where
  "size_group_step md5_hexdigest fs completion grp st =
     (case grp of (file_size, media_files_group) \<Rightarrow>
        (case media_files_group of
           [media_file] \<Rightarrow>
             register_unique (''size_'' @ str_nat file_size @ ''_'' @ src_path media_file)
               media_file st
         | _ \<Rightarrow> process_hash_group_concurrent_zip md5_hexdigest fs completion media_files_group st))"

definition deduplicate_media_files_byhash ::
  "(string \<Rightarrow> string) \<Rightarrow> (string \<Rightarrow> fs_entry) \<Rightarrow> (media_file list \<Rightarrow> media_file list) \<Rightarrow>
   media_file list \<Rightarrow> dedup_state"
where
  "deduplicate_media_files_byhash md5_hexdigest fs completion all_media_files =
     fold (size_group_step md5_hexdigest fs completion)
       (group_by_size fs all_media_files {} []) empty_dedup_state"

subsection \<open>Deduplication by path\<close>

text \<open>\<^verbatim>\<open>deduplicate_media_files_by_path\<close>: every source path seen for the first time is a
  unique file under its own path.\<close>

fun by_path_loop :: "media_file list \<Rightarrow> string set \<Rightarrow> dedup_state \<Rightarrow> dedup_state" where
  "by_path_loop [] processed_paths st = st"
| "by_path_loop (m # ms) processed_paths st =
     (if src_path m \<in> processed_paths then by_path_loop ms processed_paths st
      else by_path_loop ms (insert (src_path m) processed_paths) (register_unique (src_path m) m st))"

definition deduplicate_media_files_by_path :: "media_file list \<Rightarrow> dedup_state" where
  "deduplicate_media_files_by_path all_media_files = by_path_loop all_media_files {} empty_dedup_state"

subsection \<open>Example inputs\<close>

text \<open>Two datasets \<open>A\<close> and \<open>B\<close>, each with one image; the two files differ in content and
  in size.\<close>

definition two_dataset_fs :: "string \<Rightarrow> fs_entry" where
  "two_dataset_fs p =
     (if p = ''/A/x.png'' then Readable ''a''
      else if p = ''/B/y.png'' then Readable ''bb'' else Missing)"

definition two_dataset_files :: "media_file list" where
  "two_dataset_files =
     [\<lparr>src_path = ''/A/x.png'', media_type = ''images'', suffix = ''.png'', size_b = 1,
       dataset_name = ''A''\<rparr>,
      \<lparr>src_path = ''/B/y.png'', media_type = ''images'', suffix = ''.png'', size_b = 2,
       dataset_name = ''B''\<rparr>]"

text \<open>A hash the loop over the results accepts: it is there and it is not the empty string.\<close>

definition hash_usable :: "string option \<Rightarrow> bool" where
  "hash_usable h \<longleftrightarrow> h \<noteq> None \<and> h \<noteq> Some []"

text \<open>
  Being treated as unique, as the specification puts it: the source path has a
  destination and a unique-file entry names it.
\<close>

definition treated_as_unique :: "dedup_state \<Rightarrow> string \<Rightarrow> bool" where
  "treated_as_unique st p \<longleftrightarrow>
     path_mapping st p \<noteq> None \<and> (\<exists>e. e \<in> ran (unique_files st) \<and> u_src_path e = p)"

text \<open>Two images of dataset \<open>A\<close> with two bytes each; the second cannot be opened.\<close>

definition unreadable_fs :: "string \<Rightarrow> fs_entry" where
  "unreadable_fs p =
     (if p = ''/A/x.png'' then Readable ''aa''
      else if p = ''/A/y.png'' then Unreadable 2 else Missing)"

definition unreadable_files :: "media_file list" where
  "unreadable_files =
     [\<lparr>src_path = ''/A/x.png'', media_type = ''images'', suffix = ''.png'', size_b = 2,
       dataset_name = ''A''\<rparr>,
      \<lparr>src_path = ''/A/y.png'', media_type = ''images'', suffix = ''.png'', size_b = 2,
       dataset_name = ''A''\<rparr>]"

subsection \<open>Invariants of the two phases\<close>

text \<open>Invariants of the first phase: every file of a group has the group's size, and every
  path seen so far whose \<open>stat\<close> succeeds stands in the group of its size.\<close>

definition groups_stat :: "(string \<Rightarrow> fs_entry) \<Rightarrow> (nat \<times> media_file list) list \<Rightarrow> bool" where
  "groups_stat fs g \<longleftrightarrow>
     (\<forall>k ms m. map_of g k = Some ms \<longrightarrow> m \<in> set ms \<longrightarrow> stat_size (fs (src_path m)) = Some k)"

definition groups_cover ::
  "(string \<Rightarrow> fs_entry) \<Rightarrow> string set \<Rightarrow> (nat \<times> media_file list) list \<Rightarrow> bool" where
  "groups_cover fs S g \<longleftrightarrow>
     (\<forall>q\<in>S. \<forall>k. stat_size (fs q) = Some k \<longrightarrow>
        (\<exists>ms m. map_of g k = Some ms \<and> m \<in> set ms \<and> src_path m = q))"

text \<open>The source paths the second phase can give a destination: those of a file alone in its
  size group and those of a file whose hash is usable.\<close>

definition allowed ::
  "(string \<Rightarrow> string) \<Rightarrow> (string \<Rightarrow> fs_entry) \<Rightarrow> (nat \<times> media_file list) list \<Rightarrow> string \<Rightarrow> bool"
where
  "allowed md5 fs g p \<longleftrightarrow>
     (\<exists>m k ms. (k, ms) \<in> set g \<and> m \<in> set ms \<and> src_path m = p \<and>
        (length ms = 1 \<or> hash_usable (get_file_hash md5 (fs p))))"

text \<open>Every destination and every unique-file entry belongs to a source path of \<open>A\<close>.\<close>

definition state_within :: "(string \<Rightarrow> bool) \<Rightarrow> dedup_state \<Rightarrow> bool" where
  "state_within A st \<longleftrightarrow>
     (\<forall>p. path_mapping st p \<noteq> None \<longrightarrow> A p) \<and>
     (\<forall>key e. unique_files st key = Some e \<longrightarrow> A (u_src_path e))"


section \<open>Volume Packer (scripts/zip_dataset.py)\<close>

text \<open>
  One entry of \<open>unique_file_paths\<close>, as \<^verbatim>\<open>create_zip_files_streaming_optimized\<close>
  builds it: the source path, the path inside the archive, the size in bytes, the hash
  key and the dataset.
\<close>

record file_info =
  fi_src_path :: string
  fi_zip_path :: string
  fi_size :: nat
  fi_file_hash :: string
  fi_dataset :: string

text \<open>
  A volume: its files, the JSON-lines payload (archive path and content of every
  metadata file, in the order of the dictionary), the configuration text if the volume
  carries one, and the running size. Strings are byte strings, so \<open>length\<close> is the
  length of the UTF-8 encoding that the code measures.
\<close>

record volume =
  files :: "file_info list"
  jsonl :: "(string \<times> string) list"
  config :: "string option"
  vol_size :: nat

text \<open>
  \<open>base_overhead\<close>: the bytes of all JSON-lines contents, plus the bytes of the
  configuration when \<^verbatim>\<open>if config_content:\<close> holds (a non-empty string).
\<close>

definition base_overhead :: "(string \<times> string) list \<Rightarrow> string option \<Rightarrow> nat" where
  "base_overhead jsonl_data config_content =
     sum_list (map (\<lambda>(p, content). length content) jsonl_data) +
     (case config_content of None \<Rightarrow> 0 | Some c \<Rightarrow> if c \<noteq> [] then length c else 0)"

text \<open>
  \<^verbatim>\<open>sorted(unique_file_paths, key=lambda x: x["size"], reverse=True)\<close>: descending
  size; Python's sort is stable also with \<open>reverse=True\<close>, so entries of equal size keep
  their order.
\<close>

definition sorted_files :: "file_info list \<Rightarrow> file_info list" where
  "sorted_files unique_file_paths = sort_key (\<lambda>x. - int (fi_size x)) unique_file_paths"

text \<open>
  The body of the loop over the sorted files, on the pair of the sealed volumes and the
  current volume: when the file would take the current volume over \<open>max_zip_size\<close> and
  the current volume is not empty, the current volume is sealed and a new one started,
  without configuration; then the file is added to the current volume.
\<close>

definition alloc_step ::
  "int \<Rightarrow> nat \<Rightarrow> (string \<times> string) list \<Rightarrow> file_info \<Rightarrow> volume list \<times> volume \<Rightarrow> volume list \<times> volume"
where
  "alloc_step max_zip_size base jsonl_data f st =
     (let (volumes, current_volume) = st;
          (volumes', cur) =
            (if int (vol_size current_volume + fi_size f) > max_zip_size \<and> files current_volume \<noteq> []
             then (volumes @ [current_volume],
                   \<lparr>files = [], jsonl = jsonl_data, config = None, vol_size = base\<rparr>)
             else (volumes, current_volume))
      in (volumes', cur\<lparr>files := files cur @ [f], vol_size := vol_size cur + fi_size f\<rparr>))"

text \<open>
  \<^verbatim>\<open>allocate_files_to_volumes(unique_file_paths, jsonl_data, config_content, max_zip_size)\<close>:
  the first volume starts with the configuration and the size \<open>base_overhead\<close>; the
  last volume is kept when it holds a file.
\<close>

definition allocate_files_to_volumes ::
  "file_info list \<Rightarrow> (string \<times> string) list \<Rightarrow> string option \<Rightarrow> int \<Rightarrow> volume list"
where
  "allocate_files_to_volumes unique_file_paths jsonl_data config_content max_zip_size =
     (let base = base_overhead jsonl_data config_content;
          first = \<lparr>files = [], jsonl = jsonl_data, config = config_content, vol_size = base\<rparr>;
          (volumes, current_volume) =
            fold (alloc_step max_zip_size base jsonl_data) (sorted_files unique_file_paths) ([], first)
      in if files current_volume \<noteq> [] then volumes @ [current_volume] else volumes)"










text \<open>The bytes of a volume's files alone.\<close>

definition files_total :: "volume \<Rightarrow> nat" where
  "files_total v = sum_list (map fi_size (files v))"

text \<open>
  The invariant of the allocation loop for one volume: its size is the shared overhead
  plus its files, and it is over \<open>max_zip_size\<close> only when it holds a single file.
\<close>

definition vol_ok :: "int \<Rightarrow> nat \<Rightarrow> (string \<times> string) list \<Rightarrow> volume \<Rightarrow> bool" where
  "vol_ok max_zip_size base jsonl_data v \<longleftrightarrow>
     vol_size v = base + files_total v \<and> jsonl v = jsonl_data \<and>
     (int (vol_size v) > max_zip_size \<and> files v \<noteq> [] \<longrightarrow> length (files v) = 1)"

text \<open>The size bound as the specification states it: a volume is over the cap only when it
  holds exactly one entry whose own size is over the cap.\<close>

definition within_cap_or_oversized_single :: "int \<Rightarrow> volume \<Rightarrow> bool" where
  "within_cap_or_oversized_single cap_bytes v \<longleftrightarrow>
     int (vol_size v) \<le> cap_bytes \<or> (\<exists>f. files v = [f] \<and> int (fi_size f) > cap_bytes)"

text \<open>An entry of \<open>unique_file_paths\<close> for the examples: an image of dataset \<open>d\<close>.\<close>

definition example_file :: "string \<Rightarrow> nat \<Rightarrow> file_info" where
  "example_file p n =
     \<lparr>fi_src_path = p, fi_zip_path = ''d/MediaFiles/images/'' @ p, fi_size = n,
      fi_file_hash = p, fi_dataset = ''d''\<rparr>"

section \<open>Static-Partition Executor: the split and the returned list\<close>

subsection \<open>Round-robin split\<close>

lemma length_split_loop: "length (split_loop n i cs dd) = length dd"
  by (induction cs arbitrary: i dd) simp_all

lemma filter_upt_shift:
  "map (\<lambda>j. (c # cs) ! j) (filter (\<lambda>j. (i + j) mod n = w) [0..<Suc (length cs)]) =
     (if i mod n = w then [c] else []) @
     map (\<lambda>j. cs ! j) (filter (\<lambda>j. (Suc i + j) mod n = w) [0..<length cs])"
proof -
  have "[0..<Suc (length cs)] = 0 # map Suc [0..<length cs]"
    by (simp add: upt_conv_Cons map_Suc_upt del: upt_Suc)
  then show ?thesis
    by (simp add: filter_map comp_def del: upt_Suc)
qed

lemma split_loop_nth:
  "w < length dd \<Longrightarrow> length dd = n \<Longrightarrow>
   split_loop n i cs dd ! w =
     dd ! w @ map (\<lambda>j. cs ! j) (filter (\<lambda>j. (i + j) mod n = w) [0..<length cs])"
proof (induction cs arbitrary: i dd)
  case Nil
  then show ?case by simp
next
  case (Cons c cs)
  have n: "0 < n" using Cons.prems by auto
  then have lt: "i mod n < length dd" using Cons.prems by simp
  have "split_loop n i (c # cs) dd ! w =
          (dd[i mod n := dd ! (i mod n) @ [c]]) ! w @
          map (\<lambda>j. cs ! j) (filter (\<lambda>j. (Suc i + j) mod n = w) [0..<length cs])"
    using Cons.prems by (simp add: Cons.IH)
  also have "(dd[i mod n := dd ! (i mod n) @ [c]]) ! w =
          dd ! w @ (if i mod n = w then [c] else [])"
    using Cons.prems lt by (simp add: nth_list_update)
  finally show ?case
    using filter_upt_shift [of c cs i n w] by (simp del: upt_Suc)
qed

lemma split_data_round_robin:
  assumes "0 < n"
  shows "\<exists>dd. split_data_for_workers xs n = Inr dd \<and> length dd = n \<and>
              (\<forall>w<n. dd ! w = round_robin xs n w)"
  using assms
  by (simp add: split_data_for_workers_def length_split_loop split_loop_nth round_robin_def)


subsection \<open>The returned list\<close>

lemma fold_process_worker:
  "fold (\<lambda>pid q. process_worker func (dd ! pid) pid q) order q0 =
     q0 @ filter (\<lambda>r. r \<noteq> Raises) (map (\<lambda>pid. func (dd ! pid) pid) order)"
  by (induction order arbitrary: q0) (simp_all add: process_worker_def split: func_result.splits)

lemma fold_collect_result:
  "fold collect_result q acc = acc @ concat (map outputs q)"
proof (induction q arbitrary: acc)
  case Nil
  then show ?case by simp
next
  case (Cons r q)
  then show ?case by (cases r) simp_all
qed

lemma concat_outputs_filter:
  "concat (map outputs (filter (\<lambda>r. r \<noteq> Raises) rs)) = concat (map outputs rs)"
  by (induction rs) simp_all

lemma wrapper_completion_order:
  assumes "0 < n" and "set order \<subseteq> {0..<n}"
  shows "pre_allocated_multiprocess func xs n order =
           Inr (concat (map (\<lambda>w. outputs (func (round_robin xs n w) w)) order))"
proof -
  obtain dd where dd: "split_data_for_workers xs n = Inr dd"
    and nth: "\<forall>w<n. dd ! w = round_robin xs n w"
    using split_data_round_robin [OF assms(1), of xs] by blast
  have "map (\<lambda>pid. func (dd ! pid) pid) order = map (\<lambda>w. func (round_robin xs n w) w) order"
    using assms(2) nth by (auto simp: subset_iff)
  then have "concat (map outputs (map (\<lambda>pid. func (dd ! pid) pid) order)) =
             concat (map outputs (map (\<lambda>w. func (round_robin xs n w) w) order))"
    by (rule arg_cong)
  then show ?thesis
    by (simp add: pre_allocated_multiprocess_def dd fold_process_worker fold_collect_result
        concat_outputs_filter comp_def)
qed

text \<open>
  C3 as the specification states it: round-robin split, and the returned list is the
  concatenation of the workers' sub-lists in worker-index order. The second half fails on
  the code: with two workers, items \<open>[1, 2]\<close> and the identity as \<open>func\<close>, worker 1
  finishing before worker 0 makes the wrapper return \<open>[2, 1]\<close>, while worker-index
  order is \<open>[1, 2]\<close>.
\<close>

theorem C3_worker_index_order_counterexample:
  "finish_order_ok 2 [1, 0] \<and>
   pre_allocated_multiprocess (\<lambda>d pid. RetList d) [1, 2 :: nat] 2 [1, 0] = Inr [2, 1] \<and>
   worker_index_order_results (\<lambda>d pid. RetList d) [1, 2 :: nat] 2 = [1, 2]"
  by (simp add: finish_order_ok_def pre_allocated_multiprocess_def split_data_for_workers_def
      process_worker_def worker_index_order_results_def round_robin_def
      upt_conv_Cons numeral_2_eq_2)

text \<open>
  C3, amended: for \<open>num_workers \<ge> 1\<close> the split is round-robin (item \<open>i\<close> goes to worker
  \<open>i mod num_workers\<close>, each worker's items in input order), and the returned list is the
  concatenation of the workers' result sub-lists in the order in which the workers
  finished; a worker whose \<open>func\<close> raised contributes nothing. When the workers finish in
  index order this is worker-index order.
\<close>

theorem C3_round_robin_completion_order:
  assumes "0 < num_workers" and "finish_order_ok num_workers finish_order"
  shows "(\<exists>dd. split_data_for_workers all_data num_workers = Inr dd \<and> length dd = num_workers \<and>
               (\<forall>w<num_workers. dd ! w = round_robin all_data num_workers w)) \<and>
         pre_allocated_multiprocess func all_data num_workers finish_order =
           Inr (concat (map (\<lambda>w. outputs (func (round_robin all_data num_workers w) w)) finish_order)) \<and>
         (finish_order = [0..<num_workers] \<longrightarrow>
          pre_allocated_multiprocess func all_data num_workers finish_order =
            Inr (worker_index_order_results func all_data num_workers))"
proof -
  have sub: "set finish_order \<subseteq> {0..<num_workers}"
  proof -
    have "set finish_order = set_mset (mset finish_order)" by simp
    also have "\<dots> = set_mset (mset [0..<num_workers])"
      using assms(2) by (simp only: finish_order_ok_def)
    finally show ?thesis by simp
  qed
  have split: "\<exists>dd. split_data_for_workers all_data num_workers = Inr dd \<and> length dd = num_workers \<and>
               (\<forall>w<num_workers. dd ! w = round_robin all_data num_workers w)"
    by (rule split_data_round_robin [OF assms(1)])
  have eq: "pre_allocated_multiprocess func all_data num_workers finish_order =
           Inr (concat (map (\<lambda>w. outputs (func (round_robin all_data num_workers w) w)) finish_order))"
    by (rule wrapper_completion_order [OF assms(1) sub])
  have "pre_allocated_multiprocess func all_data num_workers finish_order =
           Inr (worker_index_order_results func all_data num_workers)"
    if "finish_order = [0..<num_workers]"
    using eq that by (simp add: worker_index_order_results_def)
  with split eq show ?thesis by blast
qed

theorem C3_round_robin_completion_order_witness:
  "split_data_for_workers [10, 20, 30 :: nat] 2 = Inr [[10, 30], [20]] \<and>
   round_robin [10, 20, 30 :: nat] 2 0 = [10, 30] \<and>
   pre_allocated_multiprocess (\<lambda>d pid. RetList d) [10, 20, 30 :: nat] 2 [1, 0] = Inr [20, 10, 30] \<and>
   pre_allocated_multiprocess (\<lambda>d pid. RetList d) [10, 20, 30 :: nat] 2 [0, 1] = Inr [10, 30, 20]"
proof -
  have p: "(0::nat) < 2" by simp
  have o1: "finish_order_ok 2 [1, 0]"
    by (simp add: finish_order_ok_def upt_conv_Cons numeral_2_eq_2)
  have o2: "finish_order_ok 2 [0, 1]"
    by (simp add: finish_order_ok_def upt_conv_Cons numeral_2_eq_2)
  have rr0: "round_robin [10, 20, 30 :: nat] 2 0 = [10, 30]"
    by (simp add: round_robin_def upt_conv_Cons numeral_3_eq_3)
  have rr1: "round_robin [10, 20, 30 :: nat] 2 1 = [20]"
    by (simp add: round_robin_def upt_conv_Cons numeral_3_eq_3)
  have s: "split_data_for_workers [10, 20, 30 :: nat] 2 = Inr [[10, 30], [20]]"
    by (simp add: split_data_for_workers_def numeral_2_eq_2)
  from C3_round_robin_completion_order [OF p o1, of "[10, 20, 30 :: nat]" "\<lambda>d pid. RetList d"]
       C3_round_robin_completion_order [OF p o2, of "[10, 20, 30 :: nat]" "\<lambda>d pid. RetList d"]
       rr0 rr1 s
  show ?thesis by simp
qed

section \<open>Queue-Fed Executor: invariants, termination and the returned list\<close>

lemma mset_concat_map_update:
  "i < length xs \<Longrightarrow>
   mset (concat (map f (xs[i := y]))) + mset (f (xs ! i)) = mset (concat (map f xs)) + mset (f y)"
proof (induction xs arbitrary: i)
  case Nil
  then show ?case by simp
next
  case (Cons x xs)
  show ?case
  proof (cases i)
    case 0
    then show ?thesis by simp
  next
    case (Suc j)
    with Cons.prems have "j < length xs" by simp
    from Cons.IH [OF this] Suc show ?thesis by (simp add: ac_simps)
  qed
qed


lemma working_items_update:
  "i < length ws \<Longrightarrow>
   mset (working_items (ws[i := y])) + mset (case ws ! i of Working a \<Rightarrow> [a] | _ \<Rightarrow> []) =
   mset (working_items ws) + mset (case y of Working a \<Rightarrow> [a] | _ \<Rightarrow> [])"
  unfolding working_items_def by (rule mset_concat_map_update)


lemma queue_filler_eq: "queue_filler xs n = xs @ replicate n None"
proof -
  have f: "fold (\<lambda>item q. q @ [item]) xs q0 = q0 @ xs" for q0 :: "'a option list"
    by (induction xs arbitrary: q0) simp_all
  have g: "((\<lambda>q. q @ [None]) ^^ n) q0 = q0 @ replicate n None" for q0 :: "'a option list"
    by (induction n arbitrary: q0) (simp_all add: replicate_append_same)
  show ?thesis by (simp add: queue_filler_def f g)
qed

lemma items_of_simps [simp]:
  "items_of [] = []"
  "items_of (Some a # q) = a # items_of q"
  "items_of (None # q) = items_of q"
  "items_of (q @ q') = items_of q @ items_of q'"
  by (simp_all add: items_of_def)

lemma n_markers_simps [simp]:
  "n_markers [] = 0"
  "n_markers (Some a # q) = n_markers q"
  "n_markers (None # q) = Suc (n_markers q)"
  "n_markers (q @ q') = n_markers q + n_markers q'"
  by (simp_all add: n_markers_def)

lemma items_of_map_Some [simp]: "items_of (map Some xs) = xs"
  by (induction xs) simp_all

lemma items_of_replicate_None [simp]: "items_of (replicate k None) = []"
  by (induction k) simp_all

lemma n_markers_map_Some [simp]: "n_markers (map Some xs) = 0"
  by (induction xs) simp_all

lemma n_markers_replicate_None [simp]: "n_markers (replicate k None) = k"
  by (induction k) simp_all

lemma working_items_replicate_Waiting [simp]: "working_items (replicate n Waiting) = []"
  by (induction n) (simp_all add: working_items_def)

lemma n_running_replicate_Waiting [simp]: "n_running (replicate n Waiting) = n"
  by (induction n) (simp_all add: n_running_def)

lemma accounting_initial: "accounting v func xs (initial_state xs n)"
  by (simp add: accounting_def initial_state_def queue_filler_eq)

lemma items_of_length: "length (items_of q) + n_markers q = length q"
proof (induction q)
  case Nil
  then show ?case by simp
next
  case (Cons x q)
  then show ?case by (cases x) simp_all
qed

lemma no_None_items: "None \<notin> set q \<Longrightarrow> map Some (items_of q) = q \<and> n_markers q = 0"
proof (induction q)
  case Nil
  then show ?case by simp
next
  case (Cons x q)
  then show ?case by (cases x) simp_all
qed

lemma n_markers_zero: "n_markers q = 0 \<Longrightarrow> None \<notin> set q"
proof (induction q)
  case Nil
  then show ?case by simp
next
  case (Cons x q)
  then show ?case by (cases x) simp_all
qed

lemma in_items_of: "a \<in> set (items_of q) \<longleftrightarrow> Some a \<in> set q"
proof (induction q)
  case Nil
  then show ?case by simp
next
  case (Cons x q)
  then show ?case by (cases x) auto
qed



lemma working_items_leave:
  assumes "i < length ws" and "ws ! i = Waiting" and "y = Stopped \<or> y = Waiting"
  shows "mset (working_items (ws[i := y])) = mset (working_items ws)"
  using working_items_update [OF assms(1), of y] assms(2,3) by auto

lemma working_items_enter:
  assumes "i < length ws" and "ws ! i = Waiting"
  shows "mset (working_items (ws[i := Working a])) = add_mset a (mset (working_items ws))"
  using working_items_update [OF assms(1), of "Working a"] assms(2) by simp

lemma working_items_back:
  assumes "i < length ws" and "ws ! i = Working a" and "y = Stopped \<or> y = Waiting"
  shows "add_mset a (mset (working_items (ws[i := y]))) = mset (working_items ws)"
  using working_items_update [OF assms(1), of y] assms(2,3) by auto

lemma accounting_put:
  assumes "accounting v func xs s" and "put_step s = Some s'"
  shows "accounting v func xs s'"
proof -
  from assms(2) obtain x q where tp: "to_put s = x # q"
    and s': "s' = s\<lparr>to_put := q, data_queue := data_queue s @ [x]\<rparr>"
    by (auto simp: put_step_def split: list.splits)
  from assms(1) tp show ?thesis
    unfolding s' accounting_def by (cases x) simp_all
qed

lemma accounting_get:
  assumes "accounting v func xs s" and "get_step w s = Some s'"
  shows "accounting v func xs s'"
proof -
  from assms(2) have w: "w < length (workers s)" and wt: "workers s ! w = Waiting"
    by (auto simp: get_step_def split: if_splits)
  from assms(2) w wt obtain x q where dq: "data_queue s = x # q"
    by (cases "data_queue s") (auto simp: get_step_def)
  show ?thesis
  proof (cases x)
    case None
    with assms(2) w wt dq have s': "s' = s\<lparr>data_queue := q, workers := (workers s)[w := Stopped]\<rparr>"
      by (simp add: get_step_def)
    from assms(1) dq None show ?thesis
      unfolding s' accounting_def by (simp add: working_items_leave [OF w wt])
  next
    case (Some a)
    with assms(2) w wt dq have s': "s' = s\<lparr>data_queue := q, workers := (workers s)[w := Working a]\<rparr>"
      by (simp add: get_step_def)
    from assms(1) dq Some show ?thesis
      unfolding s' accounting_def by (simp add: working_items_enter [OF w wt])
  qed
qed

lemma accounting_done:
  assumes "accounting v func xs s" and "done_step v func w s = Some s'"
  shows "accounting v func xs s'"
proof -
  from assms(2) have w: "w < length (workers s)"
    by (auto simp: done_step_def split: if_splits)
  with assms(2) obtain a where wk: "workers s ! w = Working a"
    by (cases "workers s ! w") (auto simp: done_step_def)
  from assms(2) w wk obtain y where y: "y = Stopped \<or> y = Waiting"
    and s': "s' = s\<lparr>result_queue := result_queue s @ pushed v func (a, w),
                    workers := (workers s)[w := y], calls := calls s @ [(a, w)]\<rparr>"
    by (cases "func a w"; cases v) (auto simp: done_step_def)
  have eq: "mset (working_items (workers s)) =
            add_mset a (mset (working_items ((workers s)[w := y])))"
    by (rule working_items_back [OF w wk y, symmetric])
  from assms(1) show ?thesis
    unfolding s' accounting_def eq by (auto simp: ac_simps)
qed

lemma accounting_collect:
  assumes "accounting v func xs s" and "collect_step v s = Some s'"
  shows "accounting v func xs s'"
  using assms
  by (cases v) (auto simp: accounting_def collect_step_def split: list.splits if_splits)

lemma accounting_timeout:
  assumes "accounting v func xs s" and "timeout_step v w s = Some s'"
  shows "accounting v func xs s'"
proof -
  from assms(2) have w: "w < length (workers s)" and wt: "workers s ! w = Waiting"
    and s': "s' = s\<lparr>workers := (workers s)[w := Stopped]\<rparr>"
    by (auto simp: timeout_step_def split: if_splits)
  from assms(1) show ?thesis
    unfolding s' accounting_def by (simp add: working_items_leave [OF w wt])
qed

lemma accounting_step:
  assumes "accounting v func xs s" and "exec_step v func e s = Some s'"
  shows "accounting v func xs s'"
  using assms
  by (cases e) (auto intro: accounting_put accounting_get accounting_done accounting_collect
      accounting_timeout)

lemma accounting_run:
  assumes "accounting v func xs s" and "run v func sched s = Some s'"
  shows "accounting v func xs s'"
  using assms
  by (induction sched arbitrary: s) (auto split: option.splits dest: accounting_step)


subsection \<open>The queue discipline\<close>












lemma called_item_in_data:
  assumes "accounting v func xs s" and "c \<in> set (calls s)"
  shows "Some (fst c) \<in> set xs"
proof -
  have "fst c \<in># mset (map fst (calls s))" using assms(2) by simp
  then have "fst c \<in># mset (items_of xs)"
    using assms(1) unfolding accounting_def by (metis union_iff)
  then show ?thesis by (simp add: in_items_of)
qed



subsection \<open>Every event lowers the work left\<close>








subsection \<open>Progress\<close>

lemma pushed_one:
  assumes "no_process_raise v func xs" and "Some a \<in> set xs"
  shows "length (pushed v func (a, w)) = 1"
  using assms by (cases "func a w"; cases v) (auto simp: no_process_raise_def)

lemma length_concat_ones:
  assumes "\<And>c. c \<in> set cs \<Longrightarrow> length (f c) = 1"
  shows "length (concat (map f cs)) = length cs"
  using assms by (induction cs) simp_all

lemma all_pushed:
  assumes "accounting v func xs s" and "no_process_raise v func xs"
  shows "length (concat (map (pushed v func) (calls s))) = length (calls s)"
proof (rule length_concat_ones)
  fix c assume "c \<in> set (calls s)"
  from called_item_in_data [OF assms(1) this] pushed_one [OF assms(2), of "fst c" "snd c"]
  show "length (pushed v func c) = 1" by simp
qed

lemma pending:
  assumes "accounting v func xs s" and "no_process_raise v func xs"
  shows "length (result_queue s) + length (working_items (workers s)) +
         length (items_of (data_queue s @ to_put s)) + n_markers xs = to_collect s"
proof -
  have "size (mset (map fst (calls s)) + mset (working_items (workers s)) +
          mset (items_of (data_queue s @ to_put s))) = size (mset (items_of xs))"
    using assms(1) unfolding accounting_def by (simp only:)
  then have "length (calls s) + length (working_items (workers s)) +
          length (items_of (data_queue s @ to_put s)) = length (items_of xs)"
    by simp
  moreover have "length (result_queue s) + length xs = length (calls s) + to_collect s"
    using assms(1) all_pushed [OF assms] unfolding accounting_def by simp
  ultimately show ?thesis using items_of_length [of xs] by simp
qed

lemma working_items_nonempty:
  assumes "working_items ws \<noteq> []"
  shows "\<exists>w a. w < length ws \<and> ws ! w = Working a"
proof -
  from assms obtain x where x: "x \<in> set ws" and ne: "(case x of Working a \<Rightarrow> [a] | _ \<Rightarrow> []) \<noteq> []"
    unfolding working_items_def by auto
  from ne obtain a where "x = Working a" by (cases x) auto
  with x show ?thesis by (metis in_set_conv_nth)
qed







subsection \<open>The returned list\<close>

lemma kept_result_eq: "filter (keeps v) (pushed v func c) = kept_result v func c"
  by (cases c; cases v; cases "func (fst c) (snd c)") auto

lemma filter_concat_pushed:
  "filter (keeps v) (concat (map (pushed v func) cs)) = concat (map (kept_result v func) cs)"
  by (induction cs) (simp_all add: kept_result_eq)

lemma returned_results:
  assumes "accounting v func xs s" and "no_process_raise v func xs" and "to_collect s = 0"
  shows "mset (map (\<lambda>c. Some (fst c)) (calls s)) = mset xs \<and>
         mset (all_results s) = mset (concat (map (kept_result v func) (calls s)))"
proof -
  from pending [OF assms(1,2)] assms(3)
  have e: "result_queue s = []" "working_items (workers s) = []"
    "items_of (data_queue s @ to_put s) = []" and z: "n_markers xs = 0"
    by simp_all
  from no_None_items [OF n_markers_zero [OF z]] have m: "map Some (items_of xs) = xs" by simp
  from assms(1) e have c: "mset (map fst (calls s)) = mset (items_of xs)"
    and r: "mset (all_results s) = mset (concat (map (kept_result v func) (calls s)))"
    unfolding accounting_def by (simp_all add: filter_concat_pushed)
  have "mset (map (\<lambda>c. Some (fst c)) (calls s)) = image_mset Some (mset (map fst (calls s)))"
    by (simp add: image_mset.compositionality comp_def)
  also have "\<dots> = mset (map Some (items_of xs))" unfolding c by simp
  finally have "mset (map (\<lambda>c. Some (fst c)) (calls s)) = mset xs" by (simp only: m)
  with r show ?thesis by blast
qed

subsection \<open>A complete run exists\<close>



subsection \<open>The wrappers\<close>

lemma post_allocated_Some:
  assumes "post_allocated v func xs n sched = Some rs"
  shows "(v = Thread \<and> xs = [] \<and> rs = []) \<or>
         (\<exists>s. run v func sched (initial_state xs n) = Some s \<and> returned v s \<and> rs = all_results s)"
  using assms
  by (cases v)
     (auto simp: post_allocated_def post_allocated_multithread_def post_allocated_multiprocess_def
       split: if_splits option.splits)


lemma wrapper_result:
  assumes "no_process_raise v func xs" and "post_allocated v func xs n sched = Some rs"
  shows "kept_from_calls v func xs rs"
proof -
  from post_allocated_Some [OF assms(2)] show ?thesis
  proof
    assume "v = Thread \<and> xs = [] \<and> rs = []"
    then have "mset (map (\<lambda>c. Some (fst c)) ([] :: ('a \<times> nat) list)) = mset xs \<and>
               mset rs = mset (concat (map (kept_result v func) []))" by simp
    then show ?thesis unfolding kept_from_calls_def by blast
  next
    assume "\<exists>s. run v func sched (initial_state xs n) = Some s \<and> returned v s \<and> rs = all_results s"
    then obtain s where r: "run v func sched (initial_state xs n) = Some s"
      and ret: "returned v s" and rs: "rs = all_results s" by blast
    have "accounting v func xs s"
      by (rule accounting_run [OF accounting_initial r])
    moreover from ret have "to_collect s = 0" by (simp add: returned_def)
    ultimately have "mset (map (\<lambda>c. Some (fst c)) (calls s)) = mset xs \<and>
        mset rs = mset (concat (map (kept_result v func) (calls s)))"
      using returned_results [OF _ assms(1)] rs by simp
    then show ?thesis unfolding kept_from_calls_def by blast
  qed
qed

text \<open>
  An item that is \<open>None\<close> is taken for a marker: the worker that takes it leaves its
  loop and no result is put for it, while the caller waits for \<open>len(all_data)\<close>
  results. On no sequence of events does the wrapper return.
\<close>

lemma none_item_never_returns:
  assumes "None \<in> set xs" and "no_process_raise v func xs"
  shows "post_allocated v func xs n sched = None"
proof (cases "post_allocated v func xs n sched")
  case None
  then show ?thesis .
next
  case (Some rs)
  from assms(1) have ne: "xs \<noteq> []" by auto
  from post_allocated_Some [OF Some] ne obtain s
    where r: "run v func sched (initial_state xs n) = Some s" and ret: "returned v s" by blast
  have a: "accounting v func xs s" by (rule accounting_run [OF accounting_initial r])
  from ret have "to_collect s = 0" by (simp add: returned_def)
  with pending [OF a assms(2)] have "n_markers xs = 0" by simp
  from n_markers_zero [OF this] assms(1) show ?thesis by simp
qed





subsection \<open>Concrete runs\<close>

lemmas step_defs = put_step_def get_step_def done_step_def collect_step_def timeout_step_def

lemma initial_state_eq:
  "initial_state xs n =
     \<lparr>to_put = xs @ replicate n None, data_queue = [], result_queue = [],
      workers = replicate n Waiting, to_collect = length xs, all_results = [], calls = []\<rparr>"
  by (simp add: initial_state_def queue_filler_eq)

lemma thread_run_raises_on_one:
  "post_allocated_multithread raises_on_one [Some 1, Some 2] 1
     [Put, Get 0, Done 0, Put, Get 0, Done 0, Take, Take] = Some [Some 20]"
  by (simp add: post_allocated_multithread_def initial_state_eq step_defs raises_on_one_def
      returned_def)

lemma thread_run_none_on_one:
  "post_allocated_multithread none_on_one [Some 1, Some 2] 1
     [Put, Get 0, Done 0, Put, Get 0, Done 0, Take, Take] = Some [Some 20]"
  by (simp add: post_allocated_multithread_def initial_state_eq step_defs none_on_one_def
      returned_def)


lemma process_run_raises_on_one:
  "run Process raises_on_one [Put, Put, Put, Get 0, Done 0] (initial_state [Some 1, Some 2] 1) =
     Some \<lparr>to_put = [], data_queue = [Some 2, None], result_queue = [], workers = [Stopped],
           to_collect = 2, all_results = [], calls = [(1, 0)]\<rparr>"
  by (simp add: initial_state_eq step_defs raises_on_one_def)

lemma process_stuck_after_raise:
  "exec_step Process func e
     \<lparr>to_put = [], data_queue = [Some 2, None], result_queue = [], workers = [Stopped],
      to_collect = 2, all_results = [], calls = [(1, 0)]\<rparr> = None"
  by (cases e) (auto simp: step_defs)






text \<open>
  C2: after a call of \<open>func\<close> raises, the worker keeps taking items. The thread worker
  does. The process worker executes \<^verbatim>\<open>break\<close>: with the items \<open>1\<close> and \<open>2\<close>, one
  worker and a transform that raises on \<open>1\<close>, after the call has raised the worker has
  left its loop, the item \<open>2\<close> stays on the queue, the caller still waits for two results
  and no event can happen any more. The same events in the thread variant leave the
  worker at the top of its loop, with \<open>None\<close> on the result queue.
\<close>

theorem C2_process_worker_stops_on_raise:
  "run Process raises_on_one [Put, Put, Put, Get 0, Done 0] (initial_state [Some 1, Some 2] 1) =
     Some \<lparr>to_put = [], data_queue = [Some 2, None], result_queue = [], workers = [Stopped],
           to_collect = 2, all_results = [], calls = [(1, 0)]\<rparr> \<and>
   (\<forall>e. exec_step Process raises_on_one e
      \<lparr>to_put = [], data_queue = [Some 2, None], result_queue = [], workers = [Stopped],
       to_collect = 2, all_results = [], calls = [(1, 0)]\<rparr> = None) \<and>
   run Thread raises_on_one [Put, Put, Put, Get 0, Done 0] (initial_state [Some 1, Some 2] 1) =
     Some \<lparr>to_put = [], data_queue = [Some 2, None], result_queue = [None], workers = [Waiting],
           to_collect = 2, all_results = [], calls = [(1, 0)]\<rparr>"
proof -
  have "run Thread raises_on_one [Put, Put, Put, Get 0, Done 0] (initial_state [Some 1, Some 2] 1) =
     Some \<lparr>to_put = [], data_queue = [Some 2, None], result_queue = [None], workers = [Waiting],
           to_collect = 2, all_results = [], calls = [(1, 0)]\<rparr>"
    by (simp add: initial_state_eq step_defs raises_on_one_def)
  with process_run_raises_on_one process_stuck_after_raise show ?thesis by blast
qed

subsection \<open>Results that are None\<close>

lemma done_step_thread_cong:
  assumes "\<And>a w. result_or_none (func a w) = result_or_none (func' a w)"
  shows "done_step Thread func w s = done_step Thread func' w s"
proof (cases "w < length (workers s)")
  case False
  then show ?thesis by (simp add: done_step_def)
next
  case True
  show ?thesis
  proof (cases "workers s ! w")
    case (Working a)
    from assms [of a w] True Working show ?thesis
      by (cases "func a w"; cases "func' a w") (simp_all add: done_step_def)
  qed (simp_all add: done_step_def True)
qed

lemma exec_step_thread_cong:
  assumes "\<And>a w. result_or_none (func a w) = result_or_none (func' a w)"
  shows "exec_step Thread func e s = exec_step Thread func' e s"
  using done_step_thread_cong [OF assms] by (cases e) simp_all

lemma run_thread_cong:
  assumes "\<And>a w. result_or_none (func a w) = result_or_none (func' a w)"
  shows "run Thread func sched s = run Thread func' sched s"
  by (induction sched arbitrary: s)
     (simp_all add: exec_step_thread_cong [OF assms] split: option.splits)

lemma to_collect_step:
  assumes "exec_step v func e s = Some s'"
  shows "to_collect s = to_collect s' + (if e = Take then 1 else 0)"
  using assms
  by (cases e) (auto simp: step_defs split: list.splits if_splits option.splits
      worker_state.splits fn_result.splits variant.splits)

lemma to_collect_run:
  assumes "run v func sched s = Some s'"
  shows "to_collect s = to_collect s' + count_list sched Take"
  using assms
proof (induction sched arbitrary: s)
  case Nil
  then show ?case by simp
next
  case (Cons e es)
  from Cons.prems obtain s1 where st: "exec_step v func e s = Some s1"
    and rn: "run v func es s1 = Some s'"
    by (auto split: option.splits)
  from Cons.IH [OF rn] to_collect_step [OF st] show ?case by simp
qed

lemma kept_result_thread:
  "kept_result Thread func (a, w) =
     (if result_or_none (func a w) = None then [] else [result_or_none (func a w)])"
  by (cases "func a w") simp_all

lemma kept_thread_no_None:
  assumes "kept_from_calls Thread func xs rs"
  shows "None \<notin> set rs"
proof -
  from assms obtain cs where "mset rs = mset (concat (map (kept_result Thread func) cs))"
    unfolding kept_from_calls_def by blast
  then have "set rs = set (concat (map (kept_result Thread func) cs))"
    by (rule mset_eq_setD)
  moreover have "None \<notin> set (kept_result Thread func c)" for c
    by (cases c) (simp add: kept_result_thread)
  ultimately show ?thesis by auto
qed

text \<open>
  C9: in the thread variant a call that comes back with \<open>None\<close>, because \<open>func\<close>
  raised or because it returned \<open>None\<close>, leaves no entry in the returned list. Two
  transforms that differ only in raising where the other returns \<open>None\<close> give the same
  outcome on every sequence of events; whenever the wrapper returns, the returned list
  has no \<open>None\<close>, the caller has taken exactly \<open>len(all_data)\<close> values from the result
  queue, and the list holds, up to order, the values other than \<open>None\<close> of one call
  per item.
\<close>

theorem C9_none_result_omitted:
  "((\<forall>a w. result_or_none (func a w) = result_or_none (func' a w)) \<longrightarrow>
      post_allocated_multithread func all_data num_workers sched =
      post_allocated_multithread func' all_data num_workers sched) \<and>
   (\<forall>rs. post_allocated_multithread func all_data num_workers sched = Some rs \<longrightarrow>
      None \<notin> set rs \<and>
      (all_data \<noteq> [] \<longrightarrow> count_list sched Take = length all_data) \<and>
      kept_from_calls Thread func all_data rs) \<and>
   (\<forall>a w. kept_result Thread func (a, w) =
      (if result_or_none (func a w) = None then [] else [result_or_none (func a w)]))"
proof -
  have a: "post_allocated_multithread func all_data num_workers sched =
      post_allocated_multithread func' all_data num_workers sched"
    if "\<forall>a w. result_or_none (func a w) = result_or_none (func' a w)"
    using run_thread_cong [of func func'] that
    by (simp add: post_allocated_multithread_def)
  have b: "None \<notin> set rs \<and>
      (all_data \<noteq> [] \<longrightarrow> count_list sched Take = length all_data) \<and>
      kept_from_calls Thread func all_data rs"
    if r: "post_allocated_multithread func all_data num_workers sched = Some rs" for rs
  proof -
    have t: "no_process_raise Thread func all_data" by (simp add: no_process_raise_def)
    from r have "post_allocated Thread func all_data num_workers sched = Some rs"
      by (simp add: post_allocated_def)
    from wrapper_result [OF t this] have k: "kept_from_calls Thread func all_data rs" .
    have "count_list sched Take = length all_data" if ne: "all_data \<noteq> []"
    proof -
      from r ne obtain s where "run Thread func sched (initial_state all_data num_workers) = Some s"
        and "returned Thread s"
        by (auto simp: post_allocated_multithread_def split: option.splits if_splits)
      from to_collect_run [OF this(1)] this(2) show ?thesis
        by (simp add: returned_def initial_state_def)
    qed
    with k kept_thread_no_None [OF k] show ?thesis by blast
  qed
  have c: "\<forall>a w. kept_result Thread func (a, w) =
      (if result_or_none (func a w) = None then [] else [result_or_none (func a w)])"
    by (simp only: kept_result_thread) simp
  from a have a': "(\<forall>a w. result_or_none (func a w) = result_or_none (func' a w)) \<longrightarrow>
      post_allocated_multithread func all_data num_workers sched =
      post_allocated_multithread func' all_data num_workers sched" by (rule impI)
  from b have b': "\<forall>rs. post_allocated_multithread func all_data num_workers sched = Some rs \<longrightarrow>
      None \<notin> set rs \<and>
      (all_data \<noteq> [] \<longrightarrow> count_list sched Take = length all_data) \<and>
      kept_from_calls Thread func all_data rs" by (intro allI impI)
  from a' b' c show ?thesis by (intro conjI)
qed

theorem C9_none_result_omitted_witness:
  "post_allocated_multithread raises_on_one [Some 1, Some 2] 1
     [Put, Get 0, Done 0, Put, Get 0, Done 0, Take, Take] = Some [Some 20] \<and>
   post_allocated_multithread none_on_one [Some 1, Some 2] 1
     [Put, Get 0, Done 0, Put, Get 0, Done 0, Take, Take] = Some [Some 20] \<and>
   None \<notin> set [Some (20::nat)] \<and>
   count_list [Put, Get 0, Done 0, Put, Get 0, Done 0, Take, Take] Take = length [Some (1::nat), Some 2] \<and>
   kept_from_calls Thread none_on_one [Some 1, Some 2] [Some 20] \<and>
   kept_result Thread none_on_one (1, 0) = [] \<and> kept_result Thread raises_on_one (1, 0) = []"
proof -
  have same: "\<forall>a w. result_or_none (raises_on_one a w) = result_or_none (none_on_one a w)"
    by (simp add: raises_on_one_def none_on_one_def)
  have ne: "[Some (1::nat), Some 2] \<noteq> []" by simp
  note w1 = C9_none_result_omitted [of raises_on_one none_on_one "[Some 1, Some 2]" 1
      "[Put, Get 0, Done 0, Put, Get 0, Done 0, Take, Take]"]
  note w2 = C9_none_result_omitted [of none_on_one none_on_one "[Some 1, Some 2]" 1
      "[Put, Get 0, Done 0, Put, Get 0, Done 0, Take, Take]"]
  have k1: "kept_result Thread none_on_one (1, 0) = []" by (simp add: none_on_one_def)
  have k2: "kept_result Thread raises_on_one (1, 0) = []" by (simp add: raises_on_one_def)
  from w1 same thread_run_raises_on_one
  have e: "post_allocated_multithread none_on_one [Some 1, Some 2] 1
     [Put, Get 0, Done 0, Put, Get 0, Done 0, Take, Take] = Some [Some 20]"
    by simp
  from w2 e ne have "None \<notin> set [Some (20::nat)] \<and>
      count_list [Put, Get 0, Done 0, Put, Get 0, Done 0, Take, Take] Take = length [Some (1::nat), Some 2] \<and>
      kept_from_calls Thread none_on_one [Some 1, Some 2] [Some 20]"
    by blast
  with thread_run_raises_on_one e k1 k2 show ?thesis by blast
qed

section \<open>Dynamic Scheduler: highest turn wins\<close>

subsection \<open>The reduction\<close>

lemma highest_turn_kept_step:
  assumes "highest_turn_kept rs m"
  shows "highest_turn_kept (rs @ [r]) (keep_highest_turn r m)"
  unfolding highest_turn_kept_def
proof
  fix i
  from assms have h: "case m i of
            None \<Rightarrow> (\<forall>r\<in>set rs. r_item_id r \<noteq> i)
          | Some kept \<Rightarrow>
              kept \<in> set rs \<and> r_item_id kept = i \<and>
              (\<forall>r\<in>set rs. r_item_id r = i \<longrightarrow> r_turn r \<le> r_turn kept)"
    unfolding highest_turn_kept_def by blast
  show "case keep_highest_turn r m i of
            None \<Rightarrow> (\<forall>r\<in>set (rs @ [r]). r_item_id r \<noteq> i)
          | Some kept \<Rightarrow>
              kept \<in> set (rs @ [r]) \<and> r_item_id kept = i \<and>
              (\<forall>r\<in>set (rs @ [r]). r_item_id r = i \<longrightarrow> r_turn r \<le> r_turn kept)"
  proof (cases "r_item_id r = i")
    case False
    then have "keep_highest_turn r m i = m i"
      by (auto simp: keep_highest_turn_def split: option.splits)
    with h False show ?thesis by (auto split: option.splits)
  next
    case True
    show ?thesis
    proof (cases "m i")
      case None
      with True have "keep_highest_turn r m i = Some r"
        by (simp add: keep_highest_turn_def)
      with h None True show ?thesis by auto
    next
      case (Some kept)
      show ?thesis
      proof (cases "r_turn r > r_turn kept")
        case gt: True
        with True Some have "keep_highest_turn r m i = Some r"
          by (simp add: keep_highest_turn_def)
        with h Some True gt show ?thesis by fastforce
      next
        case le: False
        with True Some have "keep_highest_turn r m i = Some kept"
          by (simp add: keep_highest_turn_def)
        with h Some True le show ?thesis by fastforce
      qed
    qed
  qed
qed

lemma reduce_results_highest: "highest_turn_kept rs (reduce_results rs)"
proof (induction rs rule: rev_induct)
  case Nil
  then show ?case by (simp add: highest_turn_kept_def reduce_results_def)
next
  case (snoc r rs)
  from highest_turn_kept_step [OF snoc.IH, of r] show ?case
    by (simp add: reduce_results_def)
qed

subsection \<open>The two-turn scenario on the scheduler\<close>

lemma mset_single_list:
  assumes "mset xs = {#a#}"
  shows "xs = [a]"
  using assms by (cases xs) auto

lemma scenario_get:
  assumes "scenario_stage s" and "dyn_get w s = Some s'"
  shows "scenario_stage s'"
proof -
  from assms(2) have w: "w < length (pool_workers s)" and wt: "pool_workers s ! w = Waiting"
    by (auto simp: dyn_get_def split: if_splits)
  from assms(2) w wt obtain t q where tq: "task_queue s = t # q"
    and s': "s' = s\<lparr>task_queue := q, pool_workers := (pool_workers s)[w := Working t]\<rparr>"
    by (cases "task_queue s") (auto simp: dyn_get_def)
  from working_items_enter [OF w wt, of t]
  have wi: "mset (working_items ((pool_workers s)[w := Working t])) =
            add_mset t (mset (working_items (pool_workers s)))" .
  from assms(1) tq consider
    (first) "t = first_turn_task" "q = []" "results_queue s = []"
      "working_items (pool_workers s) = []"
  | (second) "t = second_turn_task" "q = []" "results_queue s = [partial_result]"
      "working_items (pool_workers s) = []"
    unfolding scenario_stage_def by auto
  then show ?thesis
  proof cases
    case first
    with wi have "working_items ((pool_workers s)[w := Working t]) = [first_turn_task]"
      by (simp add: mset_single_list)
    with first show ?thesis unfolding s' scenario_stage_def by simp
  next
    case second
    with wi have "working_items ((pool_workers s)[w := Working t]) = [second_turn_task]"
      by (simp add: mset_single_list)
    with second show ?thesis unfolding s' scenario_stage_def by simp
  qed
qed

lemma scenario_done:
  assumes "scenario_stage s" and "dyn_done two_turn_func w s = Some s'"
  shows "scenario_stage s'"
proof -
  from assms(2) have w: "w < length (pool_workers s)"
    by (auto simp: dyn_done_def split: if_splits)
  with assms(2) obtain t where wk: "pool_workers s ! w = Working t"
    by (cases "pool_workers s ! w") (auto simp: dyn_done_def)
  from working_items_back [OF w wk, of Waiting]
  have wi: "add_mset t (mset (working_items ((pool_workers s)[w := Waiting]))) =
            mset (working_items (pool_workers s))" by simp
  have wtg: "Waiting \<in> set ((pool_workers s)[w := Waiting])"
    using w by (metis length_list_update nth_list_update_eq nth_mem)
  have "Working t \<in> set (pool_workers s)" using w wk nth_mem by fastforce
  then have "t \<in> set (working_items (pool_workers s))"
    unfolding working_items_def by force
  with assms(1) consider
    (first) "t = first_turn_task" "task_queue s = []" "results_queue s = []"
      "working_items (pool_workers s) = [first_turn_task]"
  | (second) "t = second_turn_task" "task_queue s = []" "results_queue s = [partial_result]"
      "working_items (pool_workers s) = [second_turn_task]"
    unfolding scenario_stage_def by auto
  then show ?thesis
  proof cases
    case first
    with wi have e: "working_items ((pool_workers s)[w := Waiting]) = []" by simp
    from assms(2) w wk first
    have "s' = s\<lparr>task_queue := [second_turn_task], results_queue := [partial_result],
                 pool_workers := (pool_workers s)[w := Waiting]\<rparr>"
      by (simp add: dyn_done_def two_turn_func_def first_turn_task_def partial_result_def)
    with e wtg show ?thesis unfolding scenario_stage_def by simp
  next
    case second
    with wi have e: "working_items ((pool_workers s)[w := Waiting]) = []" by simp
    from assms(2) w wk second
    have "s' = s\<lparr>task_queue := [], results_queue := [partial_result, final_result],
                 pool_workers := (pool_workers s)[w := Waiting]\<rparr>"
      by (simp add: dyn_done_def two_turn_func_def second_turn_task_def final_result_def)
    with e show ?thesis unfolding scenario_stage_def by simp
  qed
qed

lemma scenario_exit:
  assumes "scenario_stage s" and "dyn_exit w s = Some s'"
  shows "scenario_stage s'"
proof -
  from assms(2) have w: "w < length (pool_workers s)" and wt: "pool_workers s ! w = Waiting"
    and tq: "task_queue s = []"
    and s': "s' = s\<lparr>pool_workers := (pool_workers s)[w := Stopped]\<rparr>"
    by (auto simp: dyn_exit_def split: if_splits)
  from working_items_leave [OF w wt, of Stopped]
  have wi: "mset (working_items ((pool_workers s)[w := Stopped])) =
            mset (working_items (pool_workers s))" by simp
  have same: "working_items ((pool_workers s)[w := Stopped]) = working_items (pool_workers s)"
    if "working_items (pool_workers s) = [] \<or> (\<exists>a. working_items (pool_workers s) = [a])"
    using that wi by (auto simp: mset_single_list)
  from assms(1) tq have "working_items (pool_workers s) = [] \<or>
      (\<exists>a. working_items (pool_workers s) = [a])"
    unfolding scenario_stage_def by auto
  from same [OF this] assms(1) tq show ?thesis
    unfolding s' scenario_stage_def by auto
qed

lemma scenario_step:
  assumes "scenario_stage s" and "dyn_step two_turn_func e s = Some s'"
  shows "scenario_stage s'"
  using assms by (cases e) (auto intro: scenario_get scenario_done scenario_exit)

lemma scenario_run:
  assumes "scenario_stage s" and "dyn_run two_turn_func sched s = Some s'"
  shows "scenario_stage s'"
  using assms
  by (induction sched arbitrary: s) (auto split: option.splits dest: scenario_step)

lemma scenario_all_stopped:
  assumes "scenario_stage s" and "list_all (\<lambda>w. w = Stopped) (pool_workers s)"
  shows "results_queue s = [partial_result, final_result]"
proof -
  have nw: "working_items (pool_workers s) = []"
  proof (rule ccontr)
    assume "working_items (pool_workers s) \<noteq> []"
    from working_items_nonempty [OF this] obtain w a where "w < length (pool_workers s)"
      and "pool_workers s ! w = Working a" by blast
    with assms(2) show False by (auto simp: list_all_length)
  qed
  have nwait: "Waiting \<notin> set (pool_workers s)"
    using assms(2) by (auto simp: list_all_iff)
  have "pool_workers s \<noteq> [] \<Longrightarrow> Stopped \<in> set (pool_workers s)"
    using assms(2) by (cases "pool_workers s") (auto simp: list_all_iff)
  with assms(1) nw nwait show ?thesis
    unfolding scenario_stage_def by auto
qed

lemma reduce_two_turns:
  "reduce_results [partial_result, final_result] ''x'' = Some final_result"
  by (simp add: reduce_results_def keep_highest_turn_def partial_result_def final_result_def)

lemma scenario_initial:
  assumes "0 < n"
  shows "scenario_stage \<lparr>task_queue = [first_turn_task], results_queue = [],
           pool_workers = replicate n Waiting\<rparr>"
  using assms by (auto simp: scenario_stage_def)

text \<open>
  C4: the caller's reduction keeps, for every \<open>item_id\<close>, only the result of the
  highest turn; and in the scenario of the initial task of item \<open>x\<close> at turn 0 whose
  transform returns \<open>partial\<close> with one next task at turn 1, whose transform returns
  \<open>final\<close> with no next task, every run of the scheduler with at least one worker that
  ends with all workers joined returns the two results, and the reduced output for
  \<open>x\<close> is \<open>final\<close>.
\<close>

theorem C4_highest_turn_wins:
  "highest_turn_kept results (reduce_results results) \<and>
   (0 < num_workers \<and>
    dynamic_task_pool_multiprocess two_turn_func [first_turn_task] num_workers sched = Some rs \<longrightarrow>
      rs = [partial_result, final_result] \<and>
      map_option r_result (reduce_results rs ''x'') = Some (Some ''final''))"
proof -
  have "rs = [partial_result, final_result] \<and>
      map_option r_result (reduce_results rs ''x'') = Some (Some ''final'')"
    if n: "0 < num_workers"
      and r: "dynamic_task_pool_multiprocess two_turn_func [first_turn_task] num_workers sched = Some rs"
  proof -
    from r obtain s where run: "dyn_run two_turn_func sched
        \<lparr>task_queue = [first_turn_task], results_queue = [],
         pool_workers = replicate num_workers Waiting\<rparr> = Some s"
      and st: "list_all (\<lambda>w. w = Stopped) (pool_workers s)" and rs: "rs = results_queue s"
      by (auto simp: dynamic_task_pool_multiprocess_def split: option.splits if_splits)
    from scenario_run [OF scenario_initial [OF n] run] have "scenario_stage s" .
    from scenario_all_stopped [OF this st] rs have eq: "rs = [partial_result, final_result]" by simp
    have "map_option r_result (reduce_results [partial_result, final_result] ''x'') =
          Some (Some ''final'')"
      unfolding reduce_two_turns by (simp add: final_result_def)
    with eq show ?thesis by simp
  qed
  with reduce_results_highest show ?thesis by blast
qed

theorem C4_highest_turn_wins_witness:
  "0 < (2::nat) \<and>
   dynamic_task_pool_multiprocess two_turn_func [first_turn_task] 2
     [DGet 1, DExit 0, DDone 1, DGet 1, DDone 1, DExit 1] = Some [partial_result, final_result] \<and>
   map_option r_result (reduce_results [partial_result, final_result] ''x'') = Some (Some ''final'') \<and>
   reduce_results [final_result, partial_result] ''x'' = Some final_result \<and>
   highest_turn_kept [final_result, partial_result] (reduce_results [final_result, partial_result])"
proof -
  have p: "0 < (2::nat)" by simp
  have r: "dynamic_task_pool_multiprocess two_turn_func [first_turn_task] 2
     [DGet 1, DExit 0, DDone 1, DGet 1, DDone 1, DExit 1] = Some [partial_result, final_result]"
    by (simp add: dynamic_task_pool_multiprocess_def dyn_get_def dyn_done_def dyn_exit_def
        two_turn_func_def first_turn_task_def second_turn_task_def partial_result_def
        final_result_def numeral_2_eq_2)
  have q: "reduce_results [final_result, partial_result] ''x'' = Some final_result"
    by (simp add: reduce_results_def keep_highest_turn_def partial_result_def final_result_def)
  from C4_highest_turn_wins [of "[final_result, partial_result]" 2
      "[DGet 1, DExit 0, DDone 1, DGet 1, DDone 1, DExit 1]" "[partial_result, final_result]"]
    p r q
  show ?thesis by simp
qed

section \<open>Content Hasher: the digest input of large files\<close>

lemma concat_read_chunks: "0 < n \<Longrightarrow> concat (read_chunks n d) = d"
proof (induction n d rule: read_chunks.induct)
  case (1 n d)
  then show ?case
    by (subst read_chunks.simps) simp
qed

lemma str_nat_10485760: "str_nat 10485760 = ''10485760''"
  by (simp add: str_nat.simps digit_char_def)

lemma ten_mib_file_length: "length ten_mib_file = 10485760"
  by (simp add: ten_mib_file_def)

lemma ten_mib_file_code_input:
  "fast_hash_input ten_mib_file 10485760 =
     replicate 1048576 CHR ''a'' @ replicate 1048576 CHR ''b'' @ replicate 1048576 CHR ''b'' @
     ''10485760''"
  by (simp add: fast_hash_input_def ten_mib_file_def str_nat_10485760)

lemma ten_mib_file_centred_input:
  "centred_hash_input ten_mib_file =
     replicate 1048576 CHR ''a'' @ (replicate 524288 CHR ''a'' @ replicate 524288 CHR ''b'') @
     replicate 1048576 CHR ''b'' @ ''10485760''"
  by (simp add: centred_hash_input_def ten_mib_file_def str_nat_10485760)

lemma ten_mib_file_hash:
  "get_file_hash_fast md5 (Readable ten_mib_file) =
     Some (''fast_'' @ md5 (fast_hash_input ten_mib_file 10485760))"
  by (simp add: get_file_hash_fast_def ten_mib_file_length)

text \<open>
  C5 as the specification states it: the second block of the digest input is the MiB
  centred at the midpoint. The code seeks to \<open>file_size // 2\<close> and reads one MiB from
  there. For ten MiB made of five MiB of \<open>a\<close> and five MiB of \<open>b\<close> the byte at index
  \<open>1048576\<close> of the digest input (the first byte of the second block) is \<open>b\<close> on the
  code and \<open>a\<close> for the centred block; with the identity in the place of the digest the
  returned hash shows its input, and it is not the one of the specification.
\<close>

theorem C5_centred_middle_counterexample:
  "fast_hash_input ten_mib_file (length ten_mib_file) ! 1048576 = CHR ''b'' \<and>
   centred_hash_input ten_mib_file ! 1048576 = CHR ''a'' \<and>
   get_file_hash_fast (\<lambda>bytes. bytes) (Readable ten_mib_file) \<noteq>
     Some (''fast_'' @ centred_hash_input ten_mib_file)"
proof -
  have a: "fast_hash_input ten_mib_file (length ten_mib_file) ! 1048576 = CHR ''b''"
    by (simp add: ten_mib_file_length ten_mib_file_code_input nth_append)
  have b: "centred_hash_input ten_mib_file ! 1048576 = CHR ''a''"
    by (simp add: ten_mib_file_centred_input nth_append)
  have "fast_hash_input ten_mib_file 10485760 \<noteq> centred_hash_input ten_mib_file"
    using a b by (auto simp: ten_mib_file_length)
  then have "get_file_hash_fast (\<lambda>bytes. bytes) (Readable ten_mib_file) \<noteq>
     Some (''fast_'' @ centred_hash_input ten_mib_file)"
    by (simp add: ten_mib_file_hash)
  with a b show ?thesis by blast
qed

text \<open>
  C5, amended: for every readable file of size at least 10 MiB the digest input is the
  first MiB, then the MiB that starts at the midpoint \<open>size div 2\<close>, then the last
  MiB, then the decimal string of the size, and the returned hash is the hexadecimal
  digest of that input prefixed with \<open>fast_\<close>.
\<close>

theorem C5_large_file_digest_input:
  assumes "10 * 1024 * 1024 \<le> length d"
  shows "get_file_hash_fast md5_hexdigest (Readable d) =
           Some (''fast_'' @ md5_hexdigest
             (take (1024 * 1024) d @ take (1024 * 1024) (drop (length d div 2) d) @
              drop (length d - 1024 * 1024) d @ str_nat (length d)))"
proof -
  have big: "\<not> length d < 10 * 1024 * 1024" "length d \<noteq> 0" "d \<noteq> []"
    "length d > 2 * 1024 * 1024" "length d > 1024 * 1024"
    using assms by auto
  have tl: "nat (max 0 (int (length d) - 1024 * 1024)) = length d - 1024 * 1024"
    by simp
  have "fast_hash_input d (length d) =
          take (1024 * 1024) d @ take (1024 * 1024) (drop (length d div 2) d) @
          drop (length d - 1024 * 1024) d @ str_nat (length d)"
    unfolding fast_hash_input_def Let_def tl using big(4,5) by simp
  then show ?thesis
    using big(1,2,3) by (simp add: get_file_hash_fast_def)
qed

theorem C5_large_file_digest_input_witness:
  "10 * 1024 * 1024 \<le> length ten_mib_file \<and>
   get_file_hash_fast (\<lambda>bytes. bytes) (Readable ten_mib_file) =
     Some (''fast_'' @ replicate 1048576 CHR ''a'' @ replicate 1048576 CHR ''b'' @
           replicate 1048576 CHR ''b'' @ ''10485760'')"
proof -
  have h: "10 * 1024 * 1024 \<le> length ten_mib_file"
    by (simp add: ten_mib_file_length)
  have "take (1024 * 1024) ten_mib_file @
        take (1024 * 1024) (drop (length ten_mib_file div 2) ten_mib_file) @
        drop (length ten_mib_file - 1024 * 1024) ten_mib_file @ str_nat (length ten_mib_file) =
        replicate 1048576 CHR ''a'' @ replicate 1048576 CHR ''b'' @
        replicate 1048576 CHR ''b'' @ ''10485760''"
    unfolding ten_mib_file_length by (simp add: ten_mib_file_def str_nat_10485760)
  with C5_large_file_digest_input [OF h, of "\<lambda>bytes. bytes"] h show ?thesis
    by simp
qed

section \<open>Deduplicator: destinations and files that cannot be hashed\<close>

lemma str_nat_digit: "n < 10 \<Longrightarrow> str_nat n = [digit_char n]"
  by (simp add: str_nat.simps)

lemma rel_path_first: "rel_path mt (Suc 0) sfx = ''MediaFiles/'' @ mt @ ''/1'' @ sfx"
  by (simp add: rel_path_def str_nat_digit digit_char_def)

lemma two_dataset_groups:
  "group_by_size two_dataset_fs two_dataset_files {} [] =
     [(1, [two_dataset_files ! 0]), (2, [two_dataset_files ! 1])]"
  by (simp add: two_dataset_files_def two_dataset_fs_def)

text \<open>
  C10: the destination names are not unique across datasets within one run. For the two
  datasets \<open>A\<close> and \<open>B\<close> with one image each, of different content, both deduplication
  functions map the two source files to the same destination
  \<open>MediaFiles/images/1.png\<close>: each dataset's counter for \<open>images\<close> starts at one and
  the destination does not name the dataset.
\<close>

theorem C10_destination_collision_across_datasets:
  "path_mapping (deduplicate_media_files_byhash md5_hexdigest two_dataset_fs completion
      two_dataset_files) ''/A/x.png'' = Some ''MediaFiles/images/1.png'' \<and>
   path_mapping (deduplicate_media_files_byhash md5_hexdigest two_dataset_fs completion
      two_dataset_files) ''/B/y.png'' = Some ''MediaFiles/images/1.png'' \<and>
   path_mapping (deduplicate_media_files_by_path two_dataset_files) ''/A/x.png'' =
     Some ''MediaFiles/images/1.png'' \<and>
   path_mapping (deduplicate_media_files_by_path two_dataset_files) ''/B/y.png'' =
     Some ''MediaFiles/images/1.png'' \<and>
   two_dataset_fs ''/A/x.png'' = Readable ''a'' \<and> two_dataset_fs ''/B/y.png'' = Readable ''bb'' \<and>
   map dataset_name two_dataset_files = [''A'', ''B''] \<and>
   map media_type two_dataset_files = [''images'', ''images''] \<and>
   map suffix two_dataset_files = [''.png'', ''.png'']"
proof -
  have hash: "path_mapping (deduplicate_media_files_byhash md5_hexdigest two_dataset_fs completion
      two_dataset_files) = [''/A/x.png'' \<mapsto> ''MediaFiles/images/1.png'',
                            ''/B/y.png'' \<mapsto> ''MediaFiles/images/1.png'']"
    unfolding deduplicate_media_files_byhash_def two_dataset_groups
    by (simp add: two_dataset_files_def size_group_step_def register_unique_def
        empty_dedup_state_def rel_path_first)
  have path: "path_mapping (deduplicate_media_files_by_path two_dataset_files) =
      [''/A/x.png'' \<mapsto> ''MediaFiles/images/1.png'', ''/B/y.png'' \<mapsto> ''MediaFiles/images/1.png'']"
    by (simp add: deduplicate_media_files_by_path_def two_dataset_files_def register_unique_def
        empty_dedup_state_def rel_path_first)
  show ?thesis
    unfolding hash path by (simp add: two_dataset_fs_def two_dataset_files_def)
qed

subsection \<open>Files whose hash fails\<close>

lemma map_of_add_to_group:
  "map_of (add_to_group k m g) k' =
     (if k' = k then Some (case map_of g k of None \<Rightarrow> [m] | Some ms \<Rightarrow> ms @ [m])
      else map_of g k')"
  by (induction g) auto

lemma keys_add_to_group: "set (map fst (add_to_group k m g)) = insert k (set (map fst g))"
proof (induction g)
  case Nil
  then show ?case by simp
next
  case (Cons a g)
  obtain k' ms where a: "a = (k', ms)" by (cases a)
  show ?case
  proof (cases "k = k'")
    case True
    with a show ?thesis by auto
  next
    case False
    with a Cons.IH show ?thesis by auto
  qed
qed

lemma distinct_add_to_group:
  "distinct (map fst g) \<Longrightarrow> distinct (map fst (add_to_group k m g))"
proof (induction g)
  case Nil
  then show ?case by simp
next
  case (Cons a g)
  obtain k' ms where a: "a = (k', ms)" by (cases a)
  show ?case
  proof (cases "k = k'")
    case True
    with Cons.prems a show ?thesis by simp
  next
    case False
    have "k' \<notin> set (map fst (add_to_group k m g))"
      using Cons.prems a False by (simp only: keys_add_to_group) auto
    with Cons a False show ?thesis by simp
  qed
qed

lemma groups_stat_add:
  assumes "groups_stat fs g" and "stat_size (fs (src_path m)) = Some k"
  shows "groups_stat fs (add_to_group k m g)"
  using assms
  by (auto simp: groups_stat_def map_of_add_to_group split: if_splits option.splits)

lemma groups_cover_add:
  assumes "groups_cover fs S g" and "stat_size (fs (src_path m)) = Some k"
  shows "groups_cover fs (insert (src_path m) S) (add_to_group k m g)"
  unfolding groups_cover_def
proof (intro ballI allI impI)
  fix q k'
  assume q: "q \<in> insert (src_path m) S" and st: "stat_size (fs q) = Some k'"
  show "\<exists>ms m'. map_of (add_to_group k m g) k' = Some ms \<and> m' \<in> set ms \<and> src_path m' = q"
  proof (cases "q = src_path m")
    case True
    with st assms(2) have "k' = k" by simp
    with True show ?thesis
      by (auto simp: map_of_add_to_group split: option.splits)
  next
    case False
    with q have "q \<in> S" by simp
    with assms(1) st obtain ms m' where "map_of g k' = Some ms" "m' \<in> set ms" "src_path m' = q"
      unfolding groups_cover_def by blast
    then show ?thesis
      by (auto simp: map_of_add_to_group)
  qed
qed

lemma groups_cover_skip:
  assumes "groups_cover fs S g" and "stat_size (fs q) = None"
  shows "groups_cover fs (insert q S) g"
  using assms by (auto simp: groups_cover_def)

lemma group_by_size_inv:
  assumes "distinct (map fst g)" and "groups_stat fs g" and "groups_cover fs S g"
  shows "distinct (map fst (group_by_size fs mfs S g)) \<and>
         groups_stat fs (group_by_size fs mfs S g) \<and>
         groups_cover fs (S \<union> src_path ` set mfs) (group_by_size fs mfs S g)"
  using assms
proof (induction mfs arbitrary: S g)
  case Nil
  then show ?case by simp
next
  case (Cons m ms)
  show ?case
  proof (cases "src_path m \<in> S")
    case True
    then have "S \<union> src_path ` set (m # ms) = S \<union> src_path ` set ms" by auto
    with Cons.IH [OF Cons.prems] True show ?thesis by simp
  next
    case False
    show ?thesis
    proof (cases "stat_size (fs (src_path m))")
      case None
      have "groups_cover fs (insert (src_path m) S) g"
        by (rule groups_cover_skip [OF Cons.prems(3) None])
      from Cons.IH [OF Cons.prems(1,2) this] False None show ?thesis by simp
    next
      case (Some k)
      from Cons.IH [OF distinct_add_to_group [OF Cons.prems(1)]
          groups_stat_add [OF Cons.prems(2) Some] groups_cover_add [OF Cons.prems(3) Some]]
        False Some
      show ?thesis by simp
    qed
  qed
qed

lemma register_within:
  assumes "state_within A st" and "A (src_path m)"
  shows "state_within A (register_unique key m st)"
  using assms by (auto simp: state_within_def register_unique_def Let_def)

lemma hash_step_within:
  assumes "state_within A st"
    and "\<And>h m. r = HashSuccess h m \<Longrightarrow> hash_usable h \<Longrightarrow> A (src_path m)"
  shows "state_within A (fst (hash_result_step r (st, ghm)))"
proof (cases r)
  case HashError
  with assms(1) show ?thesis by simp
next
  case (HashSuccess h m)
  show ?thesis
  proof (cases h)
    case None
    with HashSuccess assms(1) show ?thesis by simp
  next
    case (Some fh)
    show ?thesis
    proof (cases "fh = []")
      case True
      with HashSuccess Some assms(1) show ?thesis by simp
    next
      case False
      with Some have "hash_usable h" by (simp add: hash_usable_def)
      from assms(2) [OF HashSuccess this] have A: "A (src_path m)" .
      show ?thesis
      proof (cases "ghm fh")
        case None
        with HashSuccess Some False register_within [OF assms(1) A] show ?thesis
          by (simp add: Let_def)
      next
        case (Some existing)
        with HashSuccess \<open>h = Some fh\<close> False assms(1) A show ?thesis
          by (auto simp: state_within_def)
      qed
    qed
  qed
qed

lemma fold_hash_within:
  assumes "state_within A st"
    and "\<And>h m. HashSuccess h m \<in> set rs \<Longrightarrow> hash_usable h \<Longrightarrow> A (src_path m)"
  shows "state_within A (fst (fold hash_result_step rs (st, ghm)))"
  using assms
proof (induction rs arbitrary: st ghm)
  case Nil
  then show ?case by simp
next
  case (Cons r rs)
  obtain st' ghm' where step: "hash_result_step r (st, ghm) = (st', ghm')"
    by (cases "hash_result_step r (st, ghm)")
  have "state_within A (fst (hash_result_step r (st, ghm)))"
  proof (rule hash_step_within [OF Cons.prems(1)])
    fix h m
    assume "r = HashSuccess h m" and "hash_usable h"
    then show "A (src_path m)" using Cons.prems(2) [of h m] by simp
  qed
  with step have "state_within A st'" by simp
  moreover have "A (src_path m)" if "HashSuccess h m \<in> set rs" "hash_usable h" for h m
    using Cons.prems(2) [of h m] that by simp
  ultimately have "state_within A (fst (fold hash_result_step rs (st', ghm')))"
    by (rule Cons.IH)
  with step show ?case by simp
qed

lemma group_within:
  assumes "completion_ok completion" and "state_within A st"
    and "\<And>m. m \<in> set ms \<Longrightarrow> hash_usable (get_file_hash md5 (fs (src_path m))) \<Longrightarrow> A (src_path m)"
  shows "state_within A (process_hash_group_concurrent_zip md5 fs completion ms st)"
proof -
  let ?tasks = "filter (\<lambda>m. path_exists (fs (src_path m))) ms"
  have "set (completion ?tasks) = set ?tasks"
    using assms(1) by (metis completion_ok_def set_mset_mset)
  then have sub: "set (completion ?tasks) \<subseteq> set ms" by auto
  have "state_within A
          (fst (fold hash_result_step (map (compute_hash_for_file_zip md5 fs) (completion ?tasks))
             (st, Map.empty)))"
  proof (rule fold_hash_within [OF assms(2)])
    fix h m
    assume "HashSuccess h m \<in> set (map (compute_hash_for_file_zip md5 fs) (completion ?tasks))"
      and u: "hash_usable h"
    then have "m \<in> set (completion ?tasks)" and "h = get_file_hash md5 (fs (src_path m))"
      by (auto simp: compute_hash_for_file_zip_def)
    with sub u assms(3) show "A (src_path m)" by blast
  qed
  with assms(2) show ?thesis
    by (simp add: process_hash_group_concurrent_zip_def Let_def)
qed

lemma size_group_step_within:
  assumes "completion_ok completion" and "state_within (allowed md5 fs g) st"
    and "(k, ms) \<in> set g"
  shows "state_within (allowed md5 fs g) (size_group_step md5 fs completion (k, ms) st)"
proof (cases "\<exists>m. ms = [m]")
  case True
  then obtain m where m: "ms = [m]" by blast
  with assms(3) have "allowed md5 fs g (src_path m)"
    unfolding allowed_def by fastforce
  from register_within [OF assms(2) this] m show ?thesis
    by (simp add: size_group_step_def)
next
  case False
  then have eq: "size_group_step md5 fs completion (k, ms) st =
      process_hash_group_concurrent_zip md5 fs completion ms st"
    by (auto simp: size_group_step_def split: list.splits)
  show ?thesis
    unfolding eq
  proof (rule group_within [OF assms(1,2)])
    fix m
    assume "m \<in> set ms" and "hash_usable (get_file_hash md5 (fs (src_path m)))"
    with assms(3) show "allowed md5 fs g (src_path m)"
      unfolding allowed_def by blast
  qed
qed

lemma fold_groups_within:
  assumes "completion_ok completion" and "state_within (allowed md5 fs g) st"
    and "set gs \<subseteq> set g"
  shows "state_within (allowed md5 fs g) (fold (size_group_step md5 fs completion) gs st)"
  using assms(2,3)
proof (induction gs arbitrary: st)
  case Nil
  then show ?case by simp
next
  case (Cons a gs)
  obtain k ms where a: "a = (k, ms)" by (cases a)
  with Cons.prems(2) have "(k, ms) \<in> set g" by simp
  from size_group_step_within [OF assms(1) Cons.prems(1) this]
  have "state_within (allowed md5 fs g) (size_group_step md5 fs completion a st)"
    by (simp add: a)
  from Cons.IH [OF this] Cons.prems(2) show ?case by simp
qed

lemma dedup_within:
  assumes "completion_ok completion"
  shows "state_within (allowed md5 fs (group_by_size fs mfs {} []))
           (deduplicate_media_files_byhash md5 fs completion mfs)"
  unfolding deduplicate_media_files_byhash_def
  by (rule fold_groups_within [OF assms])
     (simp_all add: state_within_def empty_dedup_state_def)

lemma map_of_distinct_keys:
  assumes "distinct (map fst g)" and "(k, ms) \<in> set g"
  shows "map_of g k = Some ms"
  using assms by simp

lemma not_allowed_in_shared_group:
  assumes "\<not> hash_usable (get_file_hash md5 (fs p))"
    and "m' \<in> set mfs" and "src_path m' \<noteq> p"
    and "stat_size (fs (src_path m')) = stat_size (fs p)"
  shows "\<not> allowed md5 fs (group_by_size fs mfs {} []) p"
proof
  let ?g = "group_by_size fs mfs {} []"
  have inv: "distinct (map fst ?g) \<and> groups_stat fs ?g \<and>
             groups_cover fs ({} \<union> src_path ` set mfs) ?g"
    by (rule group_by_size_inv) (simp_all add: groups_stat_def groups_cover_def)
  assume "allowed md5 fs ?g p"
  with assms(1) obtain m k ms where g: "(k, ms) \<in> set ?g" and m: "m \<in> set ms"
    and p: "src_path m = p" and one: "length ms = 1"
    unfolding allowed_def by blast
  from inv g have look: "map_of ?g k = Some ms" by (simp add: map_of_distinct_keys)
  with inv m p have "stat_size (fs p) = Some k"
    unfolding groups_stat_def by blast
  with assms(4) have "stat_size (fs (src_path m')) = Some k" by simp
  moreover have "src_path m' \<in> {} \<union> src_path ` set mfs" using assms(2) by simp
  ultimately obtain ms' m'' where "map_of ?g k = Some ms'" and "m'' \<in> set ms'"
    and "src_path m'' = src_path m'"
    using inv unfolding groups_cover_def by blast
  with look have "m'' \<in> set ms" by simp
  with one m have "m'' = m" by (cases ms) auto
  with \<open>src_path m'' = src_path m'\<close> p assms(3) show False by simp
qed

text \<open>
  C6 as the specification states it: a file whose hashing fails is still treated as
  unique, with a unique-file entry and a destination. On the code the loop over the hash
  results skips a result without a hash: of two images of two bytes, the second of which
  cannot be opened, only the first gets a destination; the second has none and no
  unique-file entry names it.
\<close>

theorem C6_unhashable_file_counterexample:
  "get_file_hash (\<lambda>bytes. bytes) (unreadable_fs ''/A/y.png'') = None \<and>
   path_mapping (deduplicate_media_files_byhash (\<lambda>bytes. bytes) unreadable_fs (\<lambda>tasks. tasks)
      unreadable_files) ''/A/y.png'' = None \<and>
   path_mapping (deduplicate_media_files_byhash (\<lambda>bytes. bytes) unreadable_fs (\<lambda>tasks. tasks)
      unreadable_files) ''/A/x.png'' = Some ''MediaFiles/images/1.png'' \<and>
   \<not> treated_as_unique
      (deduplicate_media_files_byhash (\<lambda>bytes. bytes) unreadable_fs (\<lambda>tasks. tasks)
         unreadable_files) ''/A/y.png''"
proof -
  have g: "group_by_size unreadable_fs unreadable_files {} [] = [(2, unreadable_files)]"
    by (simp add: unreadable_files_def unreadable_fs_def)
  have hx: "get_file_hash (\<lambda>bytes. bytes) (unreadable_fs ''/A/x.png'') = Some ''aa''"
    by (simp add: get_file_hash_def get_file_hash_fast_def unreadable_fs_def concat_read_chunks)
  have hy: "get_file_hash (\<lambda>bytes. bytes) (unreadable_fs ''/A/y.png'') = None"
    by (simp add: get_file_hash_def get_file_hash_fast_def unreadable_fs_def)
  have ex: "path_exists (unreadable_fs ''/A/x.png'')" "path_exists (unreadable_fs ''/A/y.png'')"
    by (simp_all add: unreadable_fs_def)
  have pm: "path_mapping (deduplicate_media_files_byhash (\<lambda>bytes. bytes) unreadable_fs
      (\<lambda>tasks. tasks) unreadable_files) = [''/A/x.png'' \<mapsto> ''MediaFiles/images/1.png'']"
    unfolding deduplicate_media_files_byhash_def g
    by (simp add: unreadable_files_def size_group_step_def process_hash_group_concurrent_zip_def
        compute_hash_for_file_zip_def hx hy ex register_unique_def empty_dedup_state_def
        rel_path_first)
  show ?thesis
    unfolding treated_as_unique_def pm by (simp add: hy)
qed

text \<open>
  C6, amended: whenever hashing a file yields no hash and another file of the input has
  the same size (so that the size group is hashed), the Deduplicator skips the file: its
  source path gets no destination and no unique-file entry names it.
\<close>

theorem C6_unhashable_file_skipped:
  assumes "completion_ok completion"
    and "get_file_hash md5_hexdigest (fs p) = None"
    and "other \<in> set all_media_files" and "src_path other \<noteq> p"
    and "stat_size (fs (src_path other)) = stat_size (fs p)"
  shows "path_mapping
           (deduplicate_media_files_byhash md5_hexdigest fs completion all_media_files) p = None \<and>
         (\<forall>key e. unique_files
              (deduplicate_media_files_byhash md5_hexdigest fs completion all_media_files) key = Some e
            \<longrightarrow> u_src_path e \<noteq> p) \<and>
         \<not> treated_as_unique
             (deduplicate_media_files_byhash md5_hexdigest fs completion all_media_files) p"
proof -
  let ?st = "deduplicate_media_files_byhash md5_hexdigest fs completion all_media_files"
  have "\<not> hash_usable (get_file_hash md5_hexdigest (fs p))"
    using assms(2) by (simp add: hash_usable_def)
  from not_allowed_in_shared_group [OF this assms(3,4,5)]
  have na: "\<not> allowed md5_hexdigest fs (group_by_size fs all_media_files {} []) p" .
  from dedup_within [OF assms(1), of md5_hexdigest fs all_media_files] na
  have pm: "path_mapping ?st p = None"
    and uf: "\<forall>key e. unique_files ?st key = Some e \<longrightarrow> u_src_path e \<noteq> p"
    unfolding state_within_def by auto
  from pm have "\<not> treated_as_unique ?st p" by (simp add: treated_as_unique_def)
  with pm uf show ?thesis by blast
qed

theorem C6_unhashable_file_skipped_witness:
  "completion_ok (\<lambda>tasks. tasks) \<and>
   get_file_hash (\<lambda>bytes. bytes) (unreadable_fs ''/A/y.png'') = None \<and>
   unreadable_files ! 0 \<in> set unreadable_files \<and>
   src_path (unreadable_files ! 0) \<noteq> ''/A/y.png'' \<and>
   stat_size (unreadable_fs (src_path (unreadable_files ! 0))) = stat_size (unreadable_fs ''/A/y.png'') \<and>
   path_mapping (deduplicate_media_files_byhash (\<lambda>bytes. bytes) unreadable_fs (\<lambda>tasks. tasks)
      unreadable_files) ''/A/y.png'' = None \<and>
   \<not> treated_as_unique
      (deduplicate_media_files_byhash (\<lambda>bytes. bytes) unreadable_fs (\<lambda>tasks. tasks)
         unreadable_files) ''/A/y.png''"
proof -
  have c: "completion_ok (\<lambda>tasks. tasks)" by (simp add: completion_ok_def)
  have hy: "get_file_hash (\<lambda>bytes. bytes) (unreadable_fs ''/A/y.png'') = None"
    by (simp add: get_file_hash_def get_file_hash_fast_def unreadable_fs_def)
  have o: "unreadable_files ! 0 \<in> set unreadable_files" by (simp add: unreadable_files_def)
  have d: "src_path (unreadable_files ! 0) \<noteq> ''/A/y.png''" by (simp add: unreadable_files_def)
  have s: "stat_size (unreadable_fs (src_path (unreadable_files ! 0))) =
           stat_size (unreadable_fs ''/A/y.png'')"
    by (simp add: unreadable_files_def unreadable_fs_def)
  from C6_unhashable_file_skipped [OF c hy o d s] c hy o d s show ?thesis by blast
qed


section \<open>Volume Packer: size bound and shared payload\<close>

lemma alloc_step_absorb:
  "int (vol_size cur + fi_size f) \<le> cap \<or> files cur = [] \<Longrightarrow>
   alloc_step cap base J f (vs, cur) =
     (vs, cur\<lparr>files := files cur @ [f], vol_size := vol_size cur + fi_size f\<rparr>)"
  by (auto simp: alloc_step_def)

lemma alloc_step_seal:
  "int (vol_size cur + fi_size f) > cap \<Longrightarrow> files cur \<noteq> [] \<Longrightarrow>
   alloc_step cap base J f (vs, cur) =
     (vs @ [cur], \<lparr>files = [f], jsonl = J, config = None, vol_size = base + fi_size f\<rparr>)"
  by (simp add: alloc_step_def)

lemma alloc_step_cases:
  obtains (absorb) "int (vol_size cur + fi_size f) \<le> cap \<or> files cur = []"
    "alloc_step cap base J f (vs, cur) =
       (vs, cur\<lparr>files := files cur @ [f], vol_size := vol_size cur + fi_size f\<rparr>)"
  | (seal) "int (vol_size cur + fi_size f) > cap" "files cur \<noteq> []"
    "alloc_step cap base J f (vs, cur) =
       (vs @ [cur], \<lparr>files = [f], jsonl = J, config = None, vol_size = base + fi_size f\<rparr>)"
  using alloc_step_absorb [of cur f cap base J vs] alloc_step_seal [of cap cur f base J vs]
  by fastforce

lemma vol_ok_absorb:
  assumes "vol_ok cap base J cur" and "int (vol_size cur + fi_size f) \<le> cap \<or> files cur = []"
  shows "vol_ok cap base J (cur\<lparr>files := files cur @ [f], vol_size := vol_size cur + fi_size f\<rparr>)"
  using assms by (auto simp: vol_ok_def files_total_def)

lemma vol_ok_fresh:
  "vol_ok cap base J \<lparr>files = [f], jsonl = J, config = None, vol_size = base + fi_size f\<rparr>"
  by (simp add: vol_ok_def files_total_def)

lemma alloc_fold_inv:
  assumes "\<forall>v\<in>set vs. vol_ok cap base J v \<and> files v \<noteq> []" and "vol_ok cap base J cur"
    and "fold (alloc_step cap base J) fs (vs, cur) = (vs', cur')"
  shows "(\<forall>v\<in>set vs'. vol_ok cap base J v \<and> files v \<noteq> []) \<and> vol_ok cap base J cur'"
  using assms
proof (induction fs arbitrary: vs cur)
  case Nil
  then show ?case by simp
next
  case (Cons f fs)
  show ?case
  proof (cases rule: alloc_step_cases [of cur f cap base J vs])
    case absorb
    have "vol_ok cap base J (cur\<lparr>files := files cur @ [f], vol_size := vol_size cur + fi_size f\<rparr>)"
      by (rule vol_ok_absorb [OF Cons.prems(2) absorb(1)])
    with Cons.IH [OF Cons.prems(1) this] Cons.prems(3) absorb(2) show ?thesis by simp
  next
    case seal
    have "\<forall>v\<in>set (vs @ [cur]). vol_ok cap base J v \<and> files v \<noteq> []"
      using Cons.prems(1,2) seal(2) by simp
    from Cons.IH [OF this vol_ok_fresh] Cons.prems(3) seal(3) show ?thesis by simp
  qed
qed

lemma allocate_vol_ok:
  assumes "v \<in> set (allocate_files_to_volumes fs J C cap)"
  shows "vol_ok cap (base_overhead J C) J v \<and> files v \<noteq> []"
proof -
  let ?base = "base_overhead J C"
  let ?first = "\<lparr>files = [], jsonl = J, config = C, vol_size = ?base\<rparr>"
  obtain vs' cur' where f: "fold (alloc_step cap ?base J) (sorted_files fs) ([], ?first) = (vs', cur')"
    by (cases "fold (alloc_step cap ?base J) (sorted_files fs) ([], ?first)") blast
  have "vol_ok cap ?base J ?first" by (simp add: vol_ok_def files_total_def)
  from alloc_fold_inv [OF _ this f]
  have inv: "(\<forall>v\<in>set vs'. vol_ok cap ?base J v \<and> files v \<noteq> []) \<and> vol_ok cap ?base J cur'"
    by simp
  have "allocate_files_to_volumes fs J C cap = (if files cur' \<noteq> [] then vs' @ [cur'] else vs')"
    by (simp add: allocate_files_to_volumes_def Let_def f)
  with assms inv show ?thesis by (auto split: if_splits)
qed

lemma single_file_volume:
  assumes "length (files v) = 1"
  shows "\<exists>f. files v = [f] \<and> files_total v = fi_size f"
proof -
  from assms obtain f where "files v = [f]"
    by (cases "files v") auto
  then show ?thesis by (auto simp: files_total_def)
qed

text \<open>
  C7 as the specification states it: no volume is over the cap unless it holds exactly
  one entry whose own size is over the cap. The packer counts the shared payload in every
  volume's size, so with a payload of 5 bytes, a cap of 10 and a single file of 8 bytes
  the one volume has size 13, and its only entry is within the cap.
\<close>

theorem C7_size_bound_counterexample:
  "allocate_files_to_volumes
     [\<lparr>fi_src_path = ''a.png'', fi_zip_path = ''d/MediaFiles/images/1.png'', fi_size = 8,
       fi_file_hash = ''h'', fi_dataset = ''d''\<rparr>]
     [(''d/MetaFiles/a.jsonl'', ''{...}'')] None 10 =
   [\<lparr>files = [\<lparr>fi_src_path = ''a.png'', fi_zip_path = ''d/MediaFiles/images/1.png'', fi_size = 8,
                fi_file_hash = ''h'', fi_dataset = ''d''\<rparr>],
     jsonl = [(''d/MetaFiles/a.jsonl'', ''{...}'')], config = None, vol_size = 13\<rparr>] \<and>
   \<not> within_cap_or_oversized_single 10
     (hd (allocate_files_to_volumes
       [\<lparr>fi_src_path = ''a.png'', fi_zip_path = ''d/MediaFiles/images/1.png'', fi_size = 8,
         fi_file_hash = ''h'', fi_dataset = ''d''\<rparr>]
       [(''d/MetaFiles/a.jsonl'', ''{...}'')] None 10))"
  by (simp add: allocate_files_to_volumes_def base_overhead_def sorted_files_def alloc_step_def
      within_cap_or_oversized_single_def)

text \<open>
  C7, amended: every volume the packer produces holds at least one file, and its size is
  the shared payload's bytes plus its files' bytes. A volume whose size is over
  \<open>max_zip_size\<close> holds exactly one file, and that file together with the shared payload
  is over \<open>max_zip_size\<close>; a volume whose files alone are over \<open>max_zip_size\<close> holds
  exactly one file whose own size is over it. In the loop, the current volume absorbs
  the next file when the size with it stays within \<open>max_zip_size\<close> (or the volume is
  still empty), and otherwise it is sealed and the file starts a new volume.
\<close>

theorem C7_volume_size_bound:
  "(\<forall>v \<in> set (allocate_files_to_volumes unique_file_paths jsonl_data config_content max_zip_size).
      files v \<noteq> [] \<and>
      vol_size v = base_overhead jsonl_data config_content + files_total v \<and>
      (int (vol_size v) > max_zip_size \<longrightarrow>
         (\<exists>f. files v = [f] \<and>
              int (base_overhead jsonl_data config_content + fi_size f) > max_zip_size)) \<and>
      (int (files_total v) > max_zip_size \<longrightarrow>
         (\<exists>f. files v = [f] \<and> int (fi_size f) > max_zip_size))) \<and>
   (int (vol_size cur + fi_size g) \<le> max_zip_size \<or> files cur = [] \<longrightarrow>
      alloc_step max_zip_size base jsonl_data g (vs, cur) =
        (vs, cur\<lparr>files := files cur @ [g], vol_size := vol_size cur + fi_size g\<rparr>)) \<and>
   (int (vol_size cur + fi_size g) > max_zip_size \<and> files cur \<noteq> [] \<longrightarrow>
      alloc_step max_zip_size base jsonl_data g (vs, cur) =
        (vs @ [cur],
         \<lparr>files = [g], jsonl = jsonl_data, config = None, vol_size = base + fi_size g\<rparr>))"
proof -
  let ?B = "base_overhead jsonl_data config_content"
  have vols: "files v \<noteq> [] \<and> vol_size v = ?B + files_total v \<and>
      (int (vol_size v) > max_zip_size \<longrightarrow>
         (\<exists>f. files v = [f] \<and> int (?B + fi_size f) > max_zip_size)) \<and>
      (int (files_total v) > max_zip_size \<longrightarrow>
         (\<exists>f. files v = [f] \<and> int (fi_size f) > max_zip_size))"
    if "v \<in> set (allocate_files_to_volumes unique_file_paths jsonl_data config_content max_zip_size)"
    for v
  proof -
    from allocate_vol_ok [OF that]
    have ok: "vol_ok max_zip_size ?B jsonl_data v" and ne: "files v \<noteq> []" by simp_all
    from ok have sz: "vol_size v = ?B + files_total v" by (simp add: vol_ok_def)
    have one: "\<exists>f. files v = [f] \<and> files_total v = fi_size f" if "int (vol_size v) > max_zip_size"
      using ok ne that single_file_volume [of v] by (simp add: vol_ok_def)
    have a: "\<exists>f. files v = [f] \<and> int (?B + fi_size f) > max_zip_size"
      if "int (vol_size v) > max_zip_size"
      using one [OF that] that sz by auto
    have b: "\<exists>f. files v = [f] \<and> int (fi_size f) > max_zip_size"
      if "int (files_total v) > max_zip_size"
    proof -
      from that sz have "int (vol_size v) > max_zip_size" by simp
      from one [OF this] that show ?thesis by auto
    qed
    from ne sz a b show ?thesis by blast
  qed
  have absorb: "alloc_step max_zip_size base jsonl_data g (vs, cur) =
        (vs, cur\<lparr>files := files cur @ [g], vol_size := vol_size cur + fi_size g\<rparr>)"
    if "int (vol_size cur + fi_size g) \<le> max_zip_size \<or> files cur = []"
    by (rule alloc_step_absorb [OF that])
  have seal: "alloc_step max_zip_size base jsonl_data g (vs, cur) =
        (vs @ [cur],
         \<lparr>files = [g], jsonl = jsonl_data, config = None, vol_size = base + fi_size g\<rparr>)"
    if "int (vol_size cur + fi_size g) > max_zip_size \<and> files cur \<noteq> []"
    using that alloc_step_seal by blast
  from vols absorb seal show ?thesis by blast
qed

lemma example_file_sel:
  "fi_size (example_file p n) = n"
  "fi_zip_path (example_file p n) = ''d/MediaFiles/images/'' @ p"
  by (simp_all add: example_file_def)

theorem C7_volume_size_bound_witness:
  "allocate_files_to_volumes
     [example_file ''7.png'' 7, example_file ''12.png'' 12, example_file ''3.png'' 3] [] None 10 =
     [\<lparr>files = [example_file ''12.png'' 12], jsonl = [], config = None, vol_size = 12\<rparr>,
      \<lparr>files = [example_file ''7.png'' 7, example_file ''3.png'' 3], jsonl = [], config = None,
       vol_size = 10\<rparr>] \<and>
   (\<exists>f. [example_file ''12.png'' 12] = [f] \<and> int (fi_size f) > 10) \<and>
   alloc_step 10 0 [] (example_file ''3.png'' 3)
     ([], \<lparr>files = [example_file ''7.png'' 7], jsonl = [], config = None, vol_size = 7\<rparr>) =
     ([], \<lparr>files = [example_file ''7.png'' 7, example_file ''3.png'' 3], jsonl = [], config = None,
           vol_size = 10\<rparr>) \<and>
   alloc_step 10 0 [] (example_file ''7.png'' 7)
     ([], \<lparr>files = [example_file ''12.png'' 12], jsonl = [], config = None, vol_size = 12\<rparr>) =
     ([\<lparr>files = [example_file ''12.png'' 12], jsonl = [], config = None, vol_size = 12\<rparr>],
      \<lparr>files = [example_file ''7.png'' 7], jsonl = [], config = None, vol_size = 7\<rparr>)"
proof -
  note fs = example_file_sel
  have al: "allocate_files_to_volumes
     [example_file ''7.png'' 7, example_file ''12.png'' 12, example_file ''3.png'' 3] [] None 10 =
     [\<lparr>files = [example_file ''12.png'' 12], jsonl = [], config = None, vol_size = 12\<rparr>,
      \<lparr>files = [example_file ''7.png'' 7, example_file ''3.png'' 3], jsonl = [], config = None,
       vol_size = 10\<rparr>]"
    by (simp add: allocate_files_to_volumes_def base_overhead_def sorted_files_def alloc_step_def fs)
  from C7_volume_size_bound
    [of "[example_file ''7.png'' 7, example_file ''12.png'' 12, example_file ''3.png'' 3]"
        "[]" None 10
        "\<lparr>files = [example_file ''7.png'' 7], jsonl = [], config = None, vol_size = 7\<rparr>"
        "example_file ''3.png'' 3" 0 "[]"]
    C7_volume_size_bound
    [of "[]" "[]" None 10
        "\<lparr>files = [example_file ''12.png'' 12], jsonl = [], config = None, vol_size = 12\<rparr>"
        "example_file ''7.png'' 7" 0 "[]"]
    al fs
  show ?thesis by (simp add: files_total_def)
qed

subsection \<open>The shared payload\<close>




subsection \<open>Writing the archive of a volume\<close>












end
